theory Spec2Isabelle
  imports Main "HOL-Library.Word" "HOL-Library.AList" "HOL-Library.Multiset"
begin

section \<open>The LRU cache engine of package store\<close>

text \<open>
  A shallow embedding of the type \<^verbatim>\<open>lruCache\<close> of package \<^verbatim>\<open>store\<close> with its methods, and of
  the factory \<^verbatim>\<open>NewStore\<close> in \<^verbatim>\<open>store/store.go\<close>.

  \<^item> Go's \<^verbatim>\<open>int\<close> and \<^verbatim>\<open>int64\<close> are 64-bit words (a 64-bit platform); \<open>+\<close> and \<open>-\<close> wrap
    around, and the comparisons of the source are the signed ones (\<open><s\<close>, \<open>\<le>s\<close>).
  \<^item> An instant (\<^verbatim>\<open>time.Time\<close>) and a duration (\<^verbatim>\<open>time.Duration\<close>) are integers counting
    nanoseconds. Every \<^verbatim>\<open>time.Now()\<close> of the source is an argument \<open>now\<close> of the model.
  \<^item> A stored value is an object the caller holds. What its \<^verbatim>\<open>Len()\<close> returns is read
    from a store of sizes (\<open>sizes\<close>) at each place the source calls it; the store is an
    argument \<open>sz\<close> of every operation that calls \<^verbatim>\<open>Len()\<close>, and the caller may hand a
    different one to the next call.
  \<^item> A Go map is an association list with distinct keys: \<^verbatim>\<open>m[k]\<close> is \<open>map_of m k\<close>,
    \<^verbatim>\<open>m[k] = v\<close> is \<open>AList.update k v m\<close>, \<^verbatim>\<open>delete(m, k)\<close> is \<open>AList.delete k m\<close>, and
    \<^verbatim>\<open>range m\<close> walks the list. Go leaves the order of \<^verbatim>\<open>range\<close> open; the order of the
    list stands for the order the runtime picks.
  \<^item> The doubly linked list \<^verbatim>\<open>container/list\<close> is a HOL list, front first. A
    \<^verbatim>\<open>*list.Element\<close> is represented by the entry it holds; entries of the list carry
    distinct keys in every state the operations build (\<open>cache_inv\<close> below), so an entry
    names one element.
  \<^item> The eviction callback is an arbitrary Go function. The model records whether one is
    configured (\<open>onEvicted\<close>) and the sequence of its invocations (\<open>evicted\<close>).
  \<^item> The mutex is not modelled: every critical section runs alone. What runs beside the
    caller is a step of its own: a goroutine that \<^verbatim>\<open>Get\<close> starts is returned as a task
    that has not run yet, and a firing of the cleanup ticker is \<open>cleanupTick\<close>; a sequence
    of calls (\<open>op\<close>) places them where the scheduler does.
\<close>

subsection \<open>Values, entries, the cache\<close>

type_synonym int64 = "64 word"
type_synonym Time = int
type_synonym Duration = int

definition Millisecond :: Duration where
  "Millisecond = 1000000"

definition Minute :: Duration where
  "Minute = 60000000000"

text \<open>
  \<^verbatim>\<open>type Value interface { Len() int }\<close>: a value is the caller's object, named by a
  number; \<open>sz v\<close> is what \<open>v.Len()\<close> returns while the store of sizes is \<open>sz\<close> (any
  \<^verbatim>\<open>int\<close>, negative ones included). A \<^verbatim>\<open>nil\<close> interface value is \<open>None\<close> of
  \<open>Value option\<close>.
\<close>

datatype Value = Value (payload: nat)

type_synonym sizes = "Value \<Rightarrow> int64"

record lruEntry =
  entry_key :: string
  entry_value :: Value

record lruCache =
  lru :: "lruEntry list"
  items :: "(string \<times> lruEntry) list"
  expires :: "(string \<times> Time) list"
  maxBytes :: int64
  usedBytes :: int64
  onEvicted :: bool
  cleanupInterval :: Duration
  evicted :: "(string \<times> Value) list"

record Options =
  MaxBytes :: int64
  BucketCnt :: "16 word"
  CapPerBucket :: "16 word"
  Level2Cap :: "16 word"
  CleanupInterval :: Duration
  OnEvicted :: bool

definition NewOptions :: Options where
  "NewOptions = \<lparr>MaxBytes = 8 * 1024, BucketCnt = 16, CapPerBucket = 512, Level2Cap = 256,
     CleanupInterval = Minute, OnEvicted = False\<rparr>"

text \<open>A panic of the Go runtime; a loop that never exits is the result \<open>None\<close>.\<close>

datatype panic = NilPointerDereference

type_synonym 'a outcome = "(panic + 'a) option"

subsection \<open>The operations of container/list that the cache calls\<close>

definition Front :: "'a list \<Rightarrow> 'a option" where
  "Front l = (case l of [] \<Rightarrow> None | e # _ \<Rightarrow> Some e)"

definition PushBack :: "'a \<Rightarrow> 'a list \<Rightarrow> 'a list" where
  "PushBack v l = l @ [v]"

definition Remove :: "'a \<Rightarrow> 'a list \<Rightarrow> 'a list" where
  "Remove e l = remove1 e l"

definition MoveToFront :: "'a \<Rightarrow> 'a list \<Rightarrow> 'a list" where
  "MoveToFront e l = (if e \<in> set l then e # remove1 e l else l)"

definition MoveToBack :: "'a \<Rightarrow> 'a list \<Rightarrow> 'a list" where
  "MoveToBack e l = (if e \<in> set l then remove1 e l @ [e] else l)"

text \<open>
  \<^verbatim>\<open>entry.value = value\<close> through the pointer of an element: the element keeps its place
  and holds the new entry.
\<close>

definition assign :: "lruEntry \<Rightarrow> lruEntry \<Rightarrow> lruEntry list \<Rightarrow> lruEntry list" where
  "assign elem elem' l = map (\<lambda>e. if e = elem then elem' else e) l"

subsection \<open>newLRUCache\<close>

text \<open>
  The cache that \<^verbatim>\<open>newLRUCache\<close> returns. The goroutine it starts, \<^verbatim>\<open>cleanupLoop\<close>, is
  the source of the \<open>cleanupTick\<close> steps below.
\<close>

definition newLRUCache :: "Options \<Rightarrow> lruCache" where
  "newLRUCache opts =
     (let cleanup = (if CleanupInterval opts \<le> 0 then Minute else CleanupInterval opts)
      in \<lparr>lru = [], items = [], expires = [], maxBytes = MaxBytes opts, usedBytes = 0,
          onEvicted = OnEvicted opts, cleanupInterval = cleanup, evicted = []\<rparr>)"

subsection \<open>removeElement, evict, cleanupLoop\<close>

text \<open>\<^verbatim>\<open>int64(len(entry.key) + entry.value.Len())\<close>, with the size the value reports now.\<close>

definition entry_size :: "sizes \<Rightarrow> lruEntry \<Rightarrow> int64" where
  "entry_size sz entry = of_nat (length (entry_key entry)) + sz (entry_value entry)"

definition removeElement :: "sizes \<Rightarrow> lruEntry \<Rightarrow> lruCache \<Rightarrow> lruCache" where
  "removeElement sz entry c =
     c\<lparr>lru := Remove entry (lru c),
       items := AList.delete (entry_key entry) (items c),
       expires := AList.delete (entry_key entry) (expires c),
       usedBytes := usedBytes c - entry_size sz entry,
       evicted := (if onEvicted c then evicted c @ [(entry_key entry, entry_value entry)]
                   else evicted c)\<rparr>"

text \<open>
  The first loop of \<^verbatim>\<open>evict\<close>, over the keys the Expiration Index had when the loop
  started. A key removed before the loop reaches it is not produced (Go's rule for a map
  changed under \<^verbatim>\<open>range\<close>). \<^verbatim>\<open>c.items[key]\<close> of a key missing from the Key Index is
  \<^verbatim>\<open>nil\<close>, and \<^verbatim>\<open>removeElement\<close> dereferences it.
\<close>

fun evict_expired ::
    "sizes \<Rightarrow> Time \<Rightarrow> (string \<times> Time) list \<Rightarrow> lruCache \<Rightarrow> panic + lruCache" where
  "evict_expired sz now [] c = Inr c"
| "evict_expired sz now ((k, expire) # rest) c =
     (if map_of (expires c) k = None then evict_expired sz now rest c
      else if now > expire then
        (case map_of (items c) k of
           None \<Rightarrow> Inl NilPointerDereference
         | Some elem \<Rightarrow> evict_expired sz now rest (removeElement sz elem c))
      else evict_expired sz now rest c)"

text \<open>
  The second loop of \<^verbatim>\<open>evict\<close>. When \<^verbatim>\<open>c.lru.Front()\<close> is \<^verbatim>\<open>nil\<close> the body does
  nothing and the condition is tested again.
\<close>

partial_function (option) evict_capacity :: "sizes \<Rightarrow> lruCache \<Rightarrow> lruCache option" where
  "evict_capacity sz c =
     (if 0 <s maxBytes c \<and> maxBytes c <s usedBytes c then
        (case Front (lru c) of
           None \<Rightarrow> evict_capacity sz c
         | Some elem \<Rightarrow> evict_capacity sz (removeElement sz elem c))
      else Some c)"

definition evict :: "sizes \<Rightarrow> Time \<Rightarrow> lruCache \<Rightarrow> lruCache outcome" where
  "evict sz now c =
     (case evict_expired sz now (expires c) c of
        Inl p \<Rightarrow> Some (Inl p)
      | Inr c' \<Rightarrow> map_option Inr (evict_capacity sz c'))"

text \<open>
  One firing of the ticker in \<^verbatim>\<open>cleanupLoop\<close>: lock, \<^verbatim>\<open>evict\<close>, unlock. The loop fires it
  once per \<open>cleanupInterval\<close> until \<^verbatim>\<open>Close\<close>; the model puts no condition on the instants.
\<close>

definition cleanupTick :: "sizes \<Rightarrow> Time \<Rightarrow> lruCache \<Rightarrow> lruCache outcome" where
  "cleanupTick sz now c = evict sz now c"

subsection \<open>The operations of the Store contract\<close>

text \<open>
  \<^verbatim>\<open>Get\<close> returns the value, the found flag, the keys of the \<^verbatim>\<open>go c.Delete(key)\<close>
  goroutines it started, and the cache as its own critical sections leave it. A goroutine
  it started runs as a \<^verbatim>\<open>Delete\<close> of its own, before or after \<^verbatim>\<open>Get\<close> returns.
\<close>

definition Get :: "Time \<Rightarrow> string \<Rightarrow> lruCache \<Rightarrow> (Value option \<times> bool) \<times> string list \<times> lruCache" where
  "Get now k c =
     (case map_of (items c) k of
        None \<Rightarrow> ((None, False), [], c)
      | Some elem \<Rightarrow>
          if (case map_of (expires c) k of None \<Rightarrow> False | Some expire \<Rightarrow> now > expire)
          then ((None, False), [k], c)
          else
            (let v = entry_value elem;
                 c' = (if map_of (items c) k \<noteq> None then c\<lparr>lru := MoveToFront elem (lru c)\<rparr>
                       else c)
             in ((Some v, True), [], c')))"

definition Delete :: "sizes \<Rightarrow> string \<Rightarrow> lruCache \<Rightarrow> bool \<times> lruCache" where
  "Delete sz k c =
     (case map_of (items c) k of
        Some elem \<Rightarrow> (True, removeElement sz elem c)
      | None \<Rightarrow> (False, c))"

text \<open>
  \<open>now\<close> is the clock read for the expiry instant, \<open>now'\<close> the one read by \<^verbatim>\<open>evict\<close>.
  The Go function returns the error \<^verbatim>\<open>nil\<close> on every path; the model returns the cache.
\<close>

definition SetWithExpiration ::
    "sizes \<Rightarrow> Time \<Rightarrow> Time \<Rightarrow> string \<Rightarrow> Value option \<Rightarrow> Duration \<Rightarrow> lruCache
      \<Rightarrow> lruCache outcome" where
  "SetWithExpiration sz now now' k v expiration c =
     (case v of
        None \<Rightarrow> Some (Inr (snd (Delete sz k c)))
      | Some val \<Rightarrow>
          (let c1 = (if expiration > 0
                     then c\<lparr>expires := AList.update k (now + expiration) (expires c)\<rparr>
                     else c\<lparr>expires := AList.delete k (expires c)\<rparr>)
           in case map_of (items c1) k of
                Some elem \<Rightarrow>
                  (let elem' = elem\<lparr>entry_value := val\<rparr>
                   in Some (Inr (c1\<lparr>usedBytes := usedBytes c1
                                        + (sz val - sz (entry_value elem)),
                                    items := AList.update k elem' (items c1),
                                    lru := MoveToBack elem' (assign elem elem' (lru c1))\<rparr>)))
              | None \<Rightarrow>
                  (let entry = \<lparr>entry_key = k, entry_value = val\<rparr>;
                       c2 = c1\<lparr>lru := PushBack entry (lru c1),
                               items := AList.update k entry (items c1),
                               usedBytes := usedBytes c1 + (of_nat (length k) + sz val)\<rparr>
                   in evict sz now' c2)))"

definition Set :: "sizes \<Rightarrow> Time \<Rightarrow> string \<Rightarrow> Value option \<Rightarrow> lruCache \<Rightarrow> lruCache outcome" where
  "Set sz now' k v c = SetWithExpiration sz now' now' k v 0 c"

definition Clear :: "lruCache \<Rightarrow> lruCache" where
  "Clear c =
     c\<lparr>evicted := (if onEvicted c
                   then evicted c @ map (\<lambda>(k, elem). (entry_key elem, entry_value elem)) (items c)
                   else evicted c),
       lru := [], items := [], expires := [], usedBytes := 0\<rparr>"

definition Len :: "lruCache \<Rightarrow> int" where
  "Len c = int (length (lru c))"

definition UsedBytes :: "lruCache \<Rightarrow> int64" where
  "UsedBytes c = usedBytes c"

definition SetMaxBytes :: "sizes \<Rightarrow> Time \<Rightarrow> int64 \<Rightarrow> lruCache \<Rightarrow> lruCache outcome" where
  "SetMaxBytes sz now m c =
     (let c' = c\<lparr>maxBytes := m\<rparr>
      in if 0 <s m then evict sz now c' else Some (Inr c'))"

subsection \<open>The auxiliary operations\<close>

definition GetWithExpiration ::
    "Time \<Rightarrow> string \<Rightarrow> lruCache \<Rightarrow> (Value option \<times> Duration \<times> bool) \<times> lruCache" where
  "GetWithExpiration now k c =
     (case map_of (items c) k of
        None \<Rightarrow> ((None, 0, False), c)
      | Some elem \<Rightarrow>
          (case map_of (expires c) k of
             Some expire \<Rightarrow>
               if now > expire then ((None, 0, False), c)
               else ((Some (entry_value elem), expire - now, True),
                     c\<lparr>lru := MoveToBack elem (lru c)\<rparr>)
           | None \<Rightarrow> ((Some (entry_value elem), 0, True), c\<lparr>lru := MoveToBack elem (lru c)\<rparr>)))"

definition UpdateExpiration :: "Time \<Rightarrow> string \<Rightarrow> Duration \<Rightarrow> lruCache \<Rightarrow> bool \<times> lruCache" where
  "UpdateExpiration now k expiration c =
     (if map_of (items c) k = None then (False, c)
      else if expiration > 0
        then (True, c\<lparr>expires := AList.update k (now + expiration) (expires c)\<rparr>)
        else (True, c\<lparr>expires := AList.delete k (expires c)\<rparr>))"

subsection \<open>The factory\<close>

text \<open>
  \<^verbatim>\<open>type CacheType string\<close> with the constants \<^verbatim>\<open>LRU\<close> and \<^verbatim>\<open>LRU2\<close>. A \<^verbatim>\<open>Store\<close> is an
  interface value: \<open>None\<close> is \<^verbatim>\<open>nil\<close>, \<open>Some\<close> holds the engine behind it.
\<close>

type_synonym CacheType = string

definition LRU :: CacheType where
  "LRU = ''LRU''"

definition LRU2 :: CacheType where
  "LRU2 = ''LRU2''"

datatype Store = LRUStore lruCache | LRU2Store

definition NewStore :: "CacheType \<Rightarrow> Options \<Rightarrow> Store option" where
  "NewStore cacheType opts =
     (if cacheType = LRU then None
      else if cacheType = LRU2 then None
      else None)"

subsection \<open>Sequences of steps\<close>

text \<open>
  What happens to one engine, one critical section after the other: the caller's calls,
  each with the clock readings it meets; \<open>OpTick\<close>, a firing of the cleanup ticker; and
  \<open>OpDelete\<close>, which is also how a goroutine started by \<^verbatim>\<open>Get\<close> runs, wherever the
  scheduler puts it. \<open>run sz\<close> is a sequence during which every value keeps the size
  \<open>sz\<close> gives it. A step that panics or never returns ends the sequence with that outcome.
\<close>

datatype op =
    OpGet Time string
  | OpSet Time string "Value option"
  | OpSetWithExpiration Time Time string "Value option" Duration
  | OpDelete string
  | OpClear
  | OpSetMaxBytes Time int64
  | OpGetWithExpiration Time string
  | OpUpdateExpiration Time string Duration
  | OpTick Time

fun apply_op :: "sizes \<Rightarrow> op \<Rightarrow> lruCache \<Rightarrow> lruCache outcome" where
  "apply_op sz (OpGet now k) c = Some (Inr (snd (snd (Get now k c))))"
| "apply_op sz (OpSet now' k v) c = Set sz now' k v c"
| "apply_op sz (OpSetWithExpiration now now' k v expiration) c =
     SetWithExpiration sz now now' k v expiration c"
| "apply_op sz (OpDelete k) c = Some (Inr (snd (Delete sz k c)))"
| "apply_op sz OpClear c = Some (Inr (Clear c))"
| "apply_op sz (OpSetMaxBytes now m) c = SetMaxBytes sz now m c"
| "apply_op sz (OpGetWithExpiration now k) c = Some (Inr (snd (GetWithExpiration now k c)))"
| "apply_op sz (OpUpdateExpiration now k expiration) c =
     Some (Inr (snd (UpdateExpiration now k expiration c)))"
| "apply_op sz (OpTick now) c = cleanupTick sz now c"

fun run :: "sizes \<Rightarrow> op list \<Rightarrow> lruCache \<Rightarrow> lruCache outcome" where
  "run sz [] c = Some (Inr c)"
| "run sz (x # xs) c =
     (case apply_op sz x c of
        Some (Inr c') \<Rightarrow> run sz xs c'
      | r \<Rightarrow> r)"

subsection \<open>The representation invariant\<close>

text \<open>
  The accounted size of a list of entries under a store of sizes, and what every state
  built by the operations under one store of sizes satisfies (\<open>run_cache_inv\<close>): the keys
  of the Recency Index are distinct, the Key Index points at exactly the entries of the
  Recency Index, each under its own key, the Expiration Index has keys of the Key Index
  only, and \<open>usedBytes\<close> is the accounted size.
\<close>

definition accounted :: "sizes \<Rightarrow> lruEntry list \<Rightarrow> int64" where
  "accounted sz l = sum_list (map (entry_size sz) l)"

definition cache_inv :: "sizes \<Rightarrow> lruCache \<Rightarrow> bool" where
  "cache_inv sz c \<longleftrightarrow>
     distinct (map entry_key (lru c)) \<and>
     distinct (map fst (items c)) \<and>
     distinct (map fst (expires c)) \<and>
     (\<forall>k elem. map_of (items c) k = Some elem \<longrightarrow> elem \<in> set (lru c) \<and> entry_key elem = k) \<and>
     (\<forall>elem \<in> set (lru c). map_of (items c) (entry_key elem) = Some elem) \<and>
     (\<forall>k. map_of (expires c) k \<noteq> None \<longrightarrow> map_of (items c) k \<noteq> None) \<and>
     usedBytes c = accounted sz (lru c)"

subsection \<open>Example sizes, states and sequences\<close>

text \<open>Stores of sizes: every value 0 bytes, 4 bytes, 5 bytes, 10 bytes.\<close>

definition Len0 :: sizes where
  "Len0 v = 0"

definition Len4 :: sizes where
  "Len4 v = 4"

definition Len5 :: sizes where
  "Len5 v = 5"

definition Len10 :: sizes where
  "Len10 v = 10"

text \<open>Value 1 has 4 bytes, value 2 has 20 bytes, every other value 3 bytes.\<close>

definition Len_4_20_3 :: sizes where
  "Len_4_20_3 v = (if v = Value 1 then 4 else if v = Value 2 then 20 else 3)"

text \<open>
  Keys A, B, C are stored in that order with no byte limit, each entry accounted at 5
  bytes; then \<^verbatim>\<open>Get("A")\<close>, then \<^verbatim>\<open>SetMaxBytes(10)\<close>, which has to evict one entry.
\<close>

definition recency_scenario :: "lruCache outcome" where
  "recency_scenario =
     run Len4
       [OpSet 0 ''A'' (Some (Value 1)),
        OpSet 1 ''B'' (Some (Value 2)),
        OpSet 2 ''C'' (Some (Value 3)),
        OpGet 3 ''A'',
        OpSetMaxBytes 4 10]
       (newLRUCache (NewOptions\<lparr>MaxBytes := 0, OnEvicted := True\<rparr>))"

text \<open>
  With a limit of 10 bytes, key \<^verbatim>\<open>"a"\<close> is stored with a value of 4 bytes and then stored
  again with a value of 20 bytes.
\<close>

definition update_scenario :: "lruCache outcome" where
  "update_scenario =
     run Len_4_20_3
       [OpSet 0 ''a'' (Some (Value 1)),
        OpSet 1 ''a'' (Some (Value 2))]
       (newLRUCache (NewOptions\<lparr>MaxBytes := 10\<rparr>))"

text \<open>A cache with an empty Recency Index whose counter is above its limit.\<close>

definition stuck_cache :: lruCache where
  "stuck_cache = \<lparr>lru = [], items = [], expires = [], maxBytes = 1, usedBytes = 5,
     onEvicted = False, cleanupInterval = Minute, evicted = []\<rparr>"

text \<open>
  The engine of \<open>NewOptions\<close> after \<^verbatim>\<open>Set("a", v)\<close> while \<open>v\<close> has 10 bytes, and what
  \<^verbatim>\<open>Delete("a")\<close> leaves of it when \<open>v\<close> has shrunk to 0 bytes in between.
\<close>

definition grown_cache :: lruCache where
  "grown_cache = \<lparr>lru = [\<lparr>entry_key = ''a'', entry_value = Value 1\<rparr>],
     items = [(''a'', \<lparr>entry_key = ''a'', entry_value = Value 1\<rparr>)],
     expires = [], maxBytes = 8 * 1024, usedBytes = 11,
     onEvicted = False, cleanupInterval = Minute, evicted = []\<rparr>"

definition shrunk_cache :: lruCache where
  "shrunk_cache = \<lparr>lru = [], items = [], expires = [], maxBytes = 8 * 1024, usedBytes = 10,
     onEvicted = False, cleanupInterval = Minute, evicted = []\<rparr>"

text \<open>
  The engine of \<open>NewOptions\<close> after \<^verbatim>\<open>SetWithExpiration("x", v, 50ms)\<close> at instant 0, for a
  value of 3 bytes.
\<close>

definition ttl_cache :: lruCache where
  "ttl_cache = \<lparr>lru = [\<lparr>entry_key = ''x'', entry_value = Value 7\<rparr>],
     items = [(''x'', \<lparr>entry_key = ''x'', entry_value = Value 7\<rparr>)],
     expires = [(''x'', 50 * Millisecond)], maxBytes = 8 * 1024, usedBytes = 4,
     onEvicted = False, cleanupInterval = Minute, evicted = []\<rparr>"

text \<open>
  A cache with a callback and two entries, of 4 and 20 bytes; \<^verbatim>\<open>"a"\<close> has the expiry
  instant 100, \<^verbatim>\<open>"b"\<close> has none.
\<close>

definition two_entries :: lruCache where
  "two_entries = \<lparr>lru = [\<lparr>entry_key = ''a'', entry_value = Value 1\<rparr>,
                            \<lparr>entry_key = ''b'', entry_value = Value 2\<rparr>],
     items = [(''b'', \<lparr>entry_key = ''b'', entry_value = Value 2\<rparr>),
              (''a'', \<lparr>entry_key = ''a'', entry_value = Value 1\<rparr>)],
     expires = [(''a'', 100)], maxBytes = 0, usedBytes = 26,
     onEvicted = True, cleanupInterval = Minute, evicted = []\<rparr>"

text \<open>The engine of \<open>NewOptions\<close> after \<^verbatim>\<open>Set("a", v)\<close> for a value of 4 bytes.\<close>

definition one_entry :: lruCache where
  "one_entry = \<lparr>lru = [\<lparr>entry_key = ''a'', entry_value = Value 1\<rparr>],
     items = [(''a'', \<lparr>entry_key = ''a'', entry_value = Value 1\<rparr>)],
     expires = [], maxBytes = 8 * 1024, usedBytes = 5,
     onEvicted = False, cleanupInterval = Minute, evicted = []\<rparr>"


section \<open>The capacity loop\<close>

lemma evict_capacity_done:
  "\<not> (0 <s maxBytes c \<and> maxBytes c <s usedBytes c) \<Longrightarrow> evict_capacity sz c = Some c"
  by (subst evict_capacity.simps) auto

lemma evict_capacity_step:
  "0 <s maxBytes c \<Longrightarrow> maxBytes c <s usedBytes c \<Longrightarrow> lru c = elem # rest \<Longrightarrow>
   evict_capacity sz c = evict_capacity sz (removeElement sz elem c)"
  by (subst evict_capacity.simps) (simp add: Front_def)

text \<open>
  Over budget with an empty list, an iteration changes nothing: the loop has no exit.
\<close>

lemma evict_capacity_stuck:
  assumes "lru c = []" "0 <s maxBytes c" "maxBytes c <s usedBytes c"
  shows "evict_capacity sz c = None"
proof (rule ccontr)
  assume "evict_capacity sz c \<noteq> None"
  then obtain y where y: "evict_capacity sz c = Some y" by auto
  have "\<not> (lru c = [] \<and> 0 <s maxBytes c \<and> maxBytes c <s usedBytes c)"
    using y
  proof (induction rule: evict_capacity.raw_induct[rotated, consumes 1])
    case (1 f sz c y)
    show ?case
    proof
      assume s: "lru c = [] \<and> 0 <s maxBytes c \<and> maxBytes c <s usedBytes c"
      with 1(2) have "f sz c = Some y" by (simp add: Front_def)
      from 1(1)[OF this] s show False by simp
    qed
  qed
  with assms show False by simp
qed

section \<open>The invariant is kept\<close>

lemma accounted_remove1:
  "e \<in> set l \<Longrightarrow> accounted sz (remove1 e l) = accounted sz l - entry_size sz e"
  using sum_list_map_remove1[of e l "entry_size sz"] by (simp add: accounted_def)

lemma accounted_mset: "mset l = mset l' \<Longrightarrow> accounted sz l = accounted sz l'"
  unfolding accounted_def by (metis mset_map sum_mset_sum_list)

lemma distinct_keys_mset:
  "mset l = mset l' \<Longrightarrow> distinct (map entry_key l) \<Longrightarrow> distinct (map entry_key l')"
  by (metis mset_map mset_eq_imp_distinct_iff)

lemma distinct_keys_remove1:
  "distinct (map entry_key l) \<Longrightarrow> distinct (map entry_key (remove1 e l))"
  by (induction l) (auto dest: set_remove1_subset[THEN subsetD])

lemma key_inj:
  "distinct (map entry_key l) \<Longrightarrow> a \<in> set l \<Longrightarrow> b \<in> set l \<Longrightarrow> entry_key a = entry_key b \<Longrightarrow> a = b"
  by (auto simp: distinct_map dest: inj_onD)

lemma removeElement_sel:
  "lru (removeElement sz elem c) = remove1 elem (lru c)"
  "items (removeElement sz elem c) = AList.delete (entry_key elem) (items c)"
  "expires (removeElement sz elem c) = AList.delete (entry_key elem) (expires c)"
  "usedBytes (removeElement sz elem c) = usedBytes c - entry_size sz elem"
  "maxBytes (removeElement sz elem c) = maxBytes c"
  by (simp_all add: removeElement_def Remove_def)

lemma removeElement_inv:
  assumes inv: "cache_inv sz c" and mem: "elem \<in> set (lru c)"
  shows "cache_inv sz (removeElement sz elem c)"
proof -
  let ?l = "lru c"
  have dk: "distinct (map entry_key ?l)" and dl: "distinct ?l"
    using inv by (auto simp: cache_inv_def distinct_map)
  have set_eq: "set (remove1 elem ?l) = set ?l - {elem}"
    using dl by simp
  have other: "e \<in> set ?l \<Longrightarrow> e \<noteq> elem \<Longrightarrow> entry_key e \<noteq> entry_key elem" for e
    using key_inj[OF dk _ mem] by blast
  have 1: "distinct (map entry_key (remove1 elem ?l))"
    using dk by (rule distinct_keys_remove1)
  have 2: "distinct (map fst (AList.delete (entry_key elem) (items c)))"
    using inv by (simp add: cache_inv_def distinct_delete)
  have 3: "distinct (map fst (AList.delete (entry_key elem) (expires c)))"
    using inv by (simp add: cache_inv_def distinct_delete)
  have 4: "map_of (AList.delete (entry_key elem) (items c)) k = Some e \<Longrightarrow>
           e \<in> set (remove1 elem ?l) \<and> entry_key e = k" for k e
    using inv unfolding cache_inv_def set_eq
    by (auto simp: delete_conv' split: if_splits)
  have 5: "e \<in> set (remove1 elem ?l) \<Longrightarrow>
           map_of (AList.delete (entry_key elem) (items c)) (entry_key e) = Some e" for e
    using inv other unfolding cache_inv_def set_eq
    by (auto simp: delete_conv')
  have 6: "map_of (AList.delete (entry_key elem) (expires c)) k \<noteq> None \<Longrightarrow>
           map_of (AList.delete (entry_key elem) (items c)) k \<noteq> None" for k
    using inv unfolding cache_inv_def
    by (auto simp: delete_conv' split: if_splits)
  have 7: "usedBytes c - entry_size sz elem = accounted sz (remove1 elem ?l)"
    using inv mem by (simp add: cache_inv_def accounted_remove1)
  show ?thesis
    unfolding cache_inv_def removeElement_sel
    using 1 2 3 4 5 6 7 by blast
qed

lemma evict_expired_inv:
  "cache_inv sz c \<Longrightarrow>
   \<exists>c'. evict_expired sz now es c = Inr c' \<and> cache_inv sz c' \<and> maxBytes c' = maxBytes c"
proof (induction es arbitrary: c)
  case Nil
  then show ?case by simp
next
  case (Cons a es)
  obtain k expire where a: "a = (k, expire)" by (cases a)
  show ?case
  proof (cases "map_of (expires c) k \<noteq> None \<and> now > expire")
    case False
    then show ?thesis using Cons.IH[OF Cons.prems] a by auto
  next
    case True
    with Cons.prems obtain elem where e: "map_of (items c) k = Some elem"
      unfolding cache_inv_def by blast
    with Cons.prems have "elem \<in> set (lru c)" unfolding cache_inv_def by blast
    from removeElement_inv[OF Cons.prems this] have "cache_inv sz (removeElement sz elem c)" .
    from Cons.IH[OF this] show ?thesis using True a e by (auto simp: removeElement_sel)
  qed
qed

lemma not_both_sless: "\<not> (0 <s (m::int64) \<and> m <s 0)"
  by (auto simp: word_sless_alt)

text \<open>
  Where \<open>usedBytes\<close> is the accounted size the capacity loop returns: it removes the
  front entry while over budget, and the empty list accounts for 0 bytes.
\<close>

lemma evict_capacity_inv:
  "cache_inv sz c \<Longrightarrow>
   \<exists>c'. evict_capacity sz c = Some c' \<and> cache_inv sz c' \<and> maxBytes c' = maxBytes c \<and>
        \<not> (0 <s maxBytes c' \<and> maxBytes c' <s usedBytes c')"
proof (induction n \<equiv> "length (lru c)" arbitrary: c)
  case 0
  then have "usedBytes c = 0" by (simp add: cache_inv_def accounted_def)
  then have "\<not> (0 <s maxBytes c \<and> maxBytes c <s usedBytes c)"
    using not_both_sless by simp
  with 0 show ?case using evict_capacity_done[of c] by simp
next
  case (Suc n)
  then obtain elem rest where l: "lru c = elem # rest" by (cases "lru c") auto
  show ?case
  proof (cases "0 <s maxBytes c \<and> maxBytes c <s usedBytes c")
    case False
    with Suc.prems show ?thesis using evict_capacity_done[of c] by simp
  next
    case True
    have inv': "cache_inv sz (removeElement sz elem c)"
      using removeElement_inv[OF Suc.prems] l by simp
    have "n = length (lru (removeElement sz elem c))"
      using Suc.hyps(2) l by (simp add: removeElement_sel)
    from Suc.hyps(1)[OF this inv'] show ?thesis
      using evict_capacity_step[OF _ _ l] True by (simp add: removeElement_sel)
  qed
qed

lemma evict_inv:
  assumes "cache_inv sz c"
  shows "\<exists>c'. evict sz now c = Some (Inr c') \<and> cache_inv sz c' \<and> maxBytes c' = maxBytes c \<and>
        \<not> (0 <s maxBytes c' \<and> maxBytes c' <s usedBytes c')"
proof -
  from evict_expired_inv[OF assms] obtain c1 where
    c1: "evict_expired sz now (expires c) c = Inr c1" "cache_inv sz c1" "maxBytes c1 = maxBytes c"
    by blast
  from evict_capacity_inv[OF c1(2)] c1 show ?thesis
    by (auto simp: evict_def)
qed

text \<open>The invariant, one part at a time.\<close>

lemma cache_invI:
  assumes "distinct (map entry_key (lru c))" "distinct (map fst (items c))"
    "distinct (map fst (expires c))"
    "\<And>k elem. map_of (items c) k = Some elem \<Longrightarrow> elem \<in> set (lru c) \<and> entry_key elem = k"
    "\<And>elem. elem \<in> set (lru c) \<Longrightarrow> map_of (items c) (entry_key elem) = Some elem"
    "\<And>k t. map_of (expires c) k = Some t \<Longrightarrow> map_of (items c) k \<noteq> None"
    "usedBytes c = accounted sz (lru c)"
  shows "cache_inv sz c"
  unfolding cache_inv_def using assms by blast

lemma cache_inv_keys: "cache_inv sz c \<Longrightarrow> distinct (map entry_key (lru c))"
  and cache_inv_items_distinct: "cache_inv sz c \<Longrightarrow> distinct (map fst (items c))"
  and cache_inv_expires_distinct: "cache_inv sz c \<Longrightarrow> distinct (map fst (expires c))"
  and cache_inv_used: "cache_inv sz c \<Longrightarrow> usedBytes c = accounted sz (lru c)"
  by (simp_all add: cache_inv_def)

lemma cache_inv_items:
  "cache_inv sz c \<Longrightarrow> map_of (items c) k = Some elem \<Longrightarrow> elem \<in> set (lru c) \<and> entry_key elem = k"
  unfolding cache_inv_def by blast

lemma cache_inv_lru:
  "cache_inv sz c \<Longrightarrow> elem \<in> set (lru c) \<Longrightarrow> map_of (items c) (entry_key elem) = Some elem"
  unfolding cache_inv_def by blast

lemma cache_inv_expires:
  "cache_inv sz c \<Longrightarrow> map_of (expires c) k = Some t \<Longrightarrow> map_of (items c) k \<noteq> None"
  unfolding cache_inv_def by blast

text \<open>
  Moving an element inside the list keeps the invariant: every part of it speaks of the
  entries of the list, not of their order.
\<close>

lemma lru_perm_inv:
  assumes inv: "cache_inv sz c" and m: "mset l' = mset (lru c)"
  shows "cache_inv sz (c\<lparr>lru := l'\<rparr>)"
proof (rule cache_invI)
  have s: "set l' = set (lru c)" using m by (rule mset_eq_setD)
  show "distinct (map entry_key (lru (c\<lparr>lru := l'\<rparr>)))"
    using distinct_keys_mset[OF m[symmetric] cache_inv_keys[OF inv]] by simp
  show "distinct (map fst (items (c\<lparr>lru := l'\<rparr>)))"
    using cache_inv_items_distinct[OF inv] by simp
  show "distinct (map fst (expires (c\<lparr>lru := l'\<rparr>)))"
    using cache_inv_expires_distinct[OF inv] by simp
  show "elem \<in> set (lru (c\<lparr>lru := l'\<rparr>)) \<and> entry_key elem = k"
    if "map_of (items (c\<lparr>lru := l'\<rparr>)) k = Some elem" for k elem
    using cache_inv_items[OF inv, of k elem] that s by simp
  show "map_of (items (c\<lparr>lru := l'\<rparr>)) (entry_key elem) = Some elem"
    if "elem \<in> set (lru (c\<lparr>lru := l'\<rparr>))" for elem
    using cache_inv_lru[OF inv, of elem] that s by simp
  show "map_of (items (c\<lparr>lru := l'\<rparr>)) k \<noteq> None"
    if "map_of (expires (c\<lparr>lru := l'\<rparr>)) k = Some t" for k t
    using cache_inv_expires[OF inv, of k t] that by simp
  show "usedBytes (c\<lparr>lru := l'\<rparr>) = accounted sz (lru (c\<lparr>lru := l'\<rparr>))"
    using cache_inv_used[OF inv] accounted_mset[OF m] by simp
qed

lemma mset_MoveToFront: "mset (MoveToFront e l) = mset l"
  by (simp add: MoveToFront_def)

lemma mset_MoveToBack: "mset (MoveToBack e l) = mset l"
  by (simp add: MoveToBack_def)

lemma Get_inv:
  assumes "cache_inv sz c"
  shows "cache_inv sz (snd (snd (Get now k c)))"
proof (cases "map_of (items c) k")
  case None
  then show ?thesis using assms by (simp add: Get_def)
next
  case (Some elem)
  have "cache_inv sz (c\<lparr>lru := MoveToFront elem (lru c)\<rparr>)"
    using lru_perm_inv[OF assms mset_MoveToFront] .
  then show ?thesis using Some assms by (simp add: Get_def Let_def)
qed

lemma GetWithExpiration_inv:
  assumes "cache_inv sz c"
  shows "cache_inv sz (snd (GetWithExpiration now k c))"
proof (cases "map_of (items c) k")
  case None
  then show ?thesis using assms by (simp add: GetWithExpiration_def)
next
  case (Some elem)
  have "cache_inv sz (c\<lparr>lru := MoveToBack elem (lru c)\<rparr>)"
    using lru_perm_inv[OF assms mset_MoveToBack] .
  then show ?thesis using Some assms
    by (simp add: GetWithExpiration_def split: option.split)
qed

lemma Delete_inv:
  assumes "cache_inv sz c"
  shows "cache_inv sz (snd (Delete sz k c))"
proof (cases "map_of (items c) k")
  case None
  then show ?thesis using assms by (simp add: Delete_def)
next
  case (Some elem)
  then have "elem \<in> set (lru c)" using cache_inv_items[OF assms] by blast
  from removeElement_inv[OF assms this] show ?thesis using Some by (simp add: Delete_def)
qed

lemma Clear_inv: "cache_inv sz (Clear c)"
  by (rule cache_invI) (simp_all add: Clear_def accounted_def)

lemma newLRUCache_inv: "cache_inv sz (newLRUCache opts)"
  by (rule cache_invI) (simp_all add: newLRUCache_def accounted_def Let_def)

lemma expires_change_inv:
  assumes inv: "cache_inv sz c" and d: "distinct (map fst ex)"
    and sub: "\<And>k' t. map_of ex k' = Some t \<Longrightarrow> map_of (items c) k' \<noteq> None"
  shows "cache_inv sz (c\<lparr>expires := ex\<rparr>)"
proof (rule cache_invI)
  show "distinct (map entry_key (lru (c\<lparr>expires := ex\<rparr>)))"
    using cache_inv_keys[OF inv] by simp
  show "distinct (map fst (items (c\<lparr>expires := ex\<rparr>)))"
    using cache_inv_items_distinct[OF inv] by simp
  show "distinct (map fst (expires (c\<lparr>expires := ex\<rparr>)))"
    using d by simp
  show "elem \<in> set (lru (c\<lparr>expires := ex\<rparr>)) \<and> entry_key elem = k"
    if "map_of (items (c\<lparr>expires := ex\<rparr>)) k = Some elem" for k elem
    using cache_inv_items[OF inv, of k elem] that by simp
  show "map_of (items (c\<lparr>expires := ex\<rparr>)) (entry_key elem) = Some elem"
    if "elem \<in> set (lru (c\<lparr>expires := ex\<rparr>))" for elem
    using cache_inv_lru[OF inv, of elem] that by simp
  show "map_of (items (c\<lparr>expires := ex\<rparr>)) k \<noteq> None"
    if "map_of (expires (c\<lparr>expires := ex\<rparr>)) k = Some t" for k t
    using sub[of k t] that by simp
  show "usedBytes (c\<lparr>expires := ex\<rparr>) = accounted sz (lru (c\<lparr>expires := ex\<rparr>))"
    using cache_inv_used[OF inv] by simp
qed

lemma expires_delete_inv:
  assumes inv: "cache_inv sz c"
  shows "cache_inv sz (c\<lparr>expires := AList.delete k (expires c)\<rparr>)"
proof (rule expires_change_inv[OF inv])
  show "distinct (map fst (AList.delete k (expires c)))"
    using cache_inv_expires_distinct[OF inv] by (rule distinct_delete)
  show "map_of (items c) k' \<noteq> None" if "map_of (AList.delete k (expires c)) k' = Some t" for k' t
    using that cache_inv_expires[OF inv, of k' t] by (simp add: delete_conv' split: if_splits)
qed

lemma expires_update_inv:
  assumes inv: "cache_inv sz c" and k: "map_of (items c) k \<noteq> None"
  shows "cache_inv sz (c\<lparr>expires := AList.update k t (expires c)\<rparr>)"
proof (rule expires_change_inv[OF inv])
  show "distinct (map fst (AList.update k t (expires c)))"
    using cache_inv_expires_distinct[OF inv] by (rule distinct_update)
  show "map_of (items c) k' \<noteq> None" if "map_of (AList.update k t (expires c)) k' = Some t'" for k' t'
    using that cache_inv_expires[OF inv, of k' t'] k by (simp add: update_conv' split: if_splits)
qed

lemma UpdateExpiration_inv:
  assumes "cache_inv sz c"
  shows "cache_inv sz (snd (UpdateExpiration now k d c))"
  using assms expires_delete_inv[OF assms, of k] expires_update_inv[OF assms, of k "now + d"]
  by (simp add: UpdateExpiration_def)

text \<open>The two paths of \<^verbatim>\<open>SetWithExpiration\<close>: an update in place, and a new entry.\<close>

lemma assign_notin: "elem \<notin> set l \<Longrightarrow> assign elem elem' l = l"
  by (induction l) (auto simp: assign_def)

lemma accounted_Cons: "accounted sz (a # l) = entry_size sz a + accounted sz l"
  by (simp add: accounted_def)

lemma accounted_assign:
  "distinct l \<Longrightarrow> elem \<in> set l \<Longrightarrow>
   accounted sz (assign elem elem' l) = accounted sz l - entry_size sz elem + entry_size sz elem'"
proof (induction l)
  case Nil
  then show ?case by simp
next
  case (Cons a l)
  show ?case
  proof (cases "a = elem")
    case True
    then have "elem \<notin> set l" using Cons.prems by simp
    then have "assign elem elem' (a # l) = elem' # l"
      using True assign_notin[of elem l elem'] by (simp add: assign_def)
    then show ?thesis using True by (simp add: accounted_Cons)
  next
    case False
    then have "assign elem elem' (a # l) = a # assign elem elem' l"
      by (simp add: assign_def)
    then show ?thesis using False Cons by (simp add: accounted_Cons)
  qed
qed

lemma set_assign:
  "elem \<in> set l \<Longrightarrow> set (assign elem elem' l) = insert elem' (set l - {elem})"
  by (auto simp: assign_def)

lemma keys_assign:
  "entry_key elem' = entry_key elem \<Longrightarrow> map entry_key (assign elem elem' l) = map entry_key l"
  by (simp add: assign_def)

lemma accounted_append: "accounted sz (l @ [e]) = accounted sz l + entry_size sz e"
  by (simp add: accounted_def)

lemma cache_inv_insert:
  assumes inv: "cache_inv sz c" and none: "map_of (items c) k = None"
    and l: "lru c' = lru c @ [entry]"
    and i: "items c' = AList.update k entry (items c)"
    and u: "usedBytes c' = usedBytes c + entry_size sz entry"
    and key: "entry_key entry = k"
    and ed: "distinct (map fst (expires c'))"
    and ex: "\<And>k' t. map_of (expires c') k' = Some t \<Longrightarrow> k' = k \<or> map_of (items c) k' \<noteq> None"
  shows "cache_inv sz c'"
proof (rule cache_invI)
  have fresh: "entry_key e \<noteq> k" if "e \<in> set (lru c)" for e
    using cache_inv_lru[OF inv that] none by auto
  have "k \<notin> entry_key ` set (lru c)" using fresh by blast
  then show "distinct (map entry_key (lru c'))"
    using cache_inv_keys[OF inv] key by (simp add: l)
  show "distinct (map fst (items c'))"
    unfolding i using cache_inv_items_distinct[OF inv] by (rule distinct_update)
  show "distinct (map fst (expires c'))" by (rule ed)
  show "elem \<in> set (lru c') \<and> entry_key elem = k'" if "map_of (items c') k' = Some elem" for k' elem
  proof (cases "k' = k")
    case True
    then show ?thesis using that key by (simp add: i l update_conv')
  next
    case False
    then have "map_of (items c) k' = Some elem" using that by (simp add: i update_conv')
    from cache_inv_items[OF inv this] show ?thesis by (simp add: l)
  qed
  show "map_of (items c') (entry_key elem) = Some elem" if "elem \<in> set (lru c')" for elem
  proof (cases "elem = entry")
    case True
    then show ?thesis using key by (simp add: i update_conv')
  next
    case False
    then have m: "elem \<in> set (lru c)" using that by (simp add: l)
    from cache_inv_lru[OF inv m] fresh[OF m] show ?thesis by (simp add: i update_conv')
  qed
  show "map_of (items c') k' \<noteq> None" if "map_of (expires c') k' = Some t" for k' t
    using ex[OF that] by (auto simp: i update_conv')
  show "usedBytes c' = accounted sz (lru c')"
    using cache_inv_used[OF inv] by (simp add: u l accounted_append)
qed

lemma cache_inv_assign:
  assumes inv: "cache_inv sz c" and some: "map_of (items c) k = Some elem"
    and elem': "elem' = elem\<lparr>entry_value := val\<rparr>"
    and l: "lru c' = MoveToBack elem' (assign elem elem' (lru c))"
    and i: "items c' = AList.update k elem' (items c)"
    and u: "usedBytes c' = usedBytes c + (sz val - sz (entry_value elem))"
    and e: "expires c' = expires c"
  shows "cache_inv sz c'"
proof (rule cache_invI)
  have mem: "elem \<in> set (lru c)" and key: "entry_key elem = k"
    using cache_inv_items[OF inv some] by simp_all
  have key': "entry_key elem' = k" using key elem' by simp
  have dk: "distinct (map entry_key (lru c))" by (rule cache_inv_keys[OF inv])
  then have dl: "distinct (lru c)" by (simp add: distinct_map)
  have m: "mset (lru c') = mset (assign elem elem' (lru c))"
    unfolding l by (rule mset_MoveToBack)
  have s: "set (lru c') = insert elem' (set (lru c) - {elem})"
    using mset_eq_setD[OF m] set_assign[OF mem] by simp
  have other: "entry_key x \<noteq> k" if "x \<in> set (lru c)" "x \<noteq> elem" for x
    using key_inj[OF dk that(1) mem] that(2) key by auto
  have "distinct (map entry_key (assign elem elem' (lru c)))"
    using dk keys_assign[of elem' elem "lru c"] key key' by simp
  from distinct_keys_mset[OF m[symmetric] this]
  show "distinct (map entry_key (lru c'))" .
  show "distinct (map fst (items c'))"
    unfolding i using cache_inv_items_distinct[OF inv] by (rule distinct_update)
  show "distinct (map fst (expires c'))"
    unfolding e by (rule cache_inv_expires_distinct[OF inv])
  show "x \<in> set (lru c') \<and> entry_key x = k'" if "map_of (items c') k' = Some x" for k' x
  proof (cases "k' = k")
    case True
    then show ?thesis using that key' by (simp add: i s update_conv')
  next
    case False
    then have "map_of (items c) k' = Some x" using that by (simp add: i update_conv')
    from cache_inv_items[OF inv this] False key show ?thesis by (auto simp: s)
  qed
  show "map_of (items c') (entry_key x) = Some x" if "x \<in> set (lru c')" for x
  proof (cases "x = elem'")
    case True
    then show ?thesis using key' by (simp add: i update_conv')
  next
    case False
    then have x: "x \<in> set (lru c)" "x \<noteq> elem" using that by (simp_all add: s)
    from cache_inv_lru[OF inv x(1)] other[OF x] show ?thesis by (simp add: i update_conv')
  qed
  show "map_of (items c') k' \<noteq> None" if "map_of (expires c') k' = Some t" for k' t
    using cache_inv_expires[OF inv, of k' t] that by (auto simp: i e update_conv')
  have "entry_size sz elem' - entry_size sz elem = sz val - sz (entry_value elem)"
    by (simp add: entry_size_def elem')
  then show "usedBytes c' = accounted sz (lru c')"
    using cache_inv_used[OF inv] accounted_mset[OF m] accounted_assign[OF dl mem, of sz elem']
    by (simp add: u)
qed

lemma SetWithExpiration_inv:
  assumes inv: "cache_inv sz c"
  shows "\<exists>c'. SetWithExpiration sz now now' k v d c = Some (Inr c') \<and> cache_inv sz c' \<and>
           (v \<noteq> None \<longrightarrow> map_of (items c) k = None \<longrightarrow>
              \<not> (0 <s maxBytes c' \<and> maxBytes c' <s usedBytes c'))"
proof (cases v)
  case None
  then show ?thesis using Delete_inv[OF inv, of k] by (simp add: SetWithExpiration_def)
next
  case (Some val)
  define ex where "ex = (if d > 0 then AList.update k (now + d) (expires c)
                         else AList.delete k (expires c))"
  define c1 where "c1 = c\<lparr>expires := ex\<rparr>"
  have c1: "(if d > 0 then c\<lparr>expires := AList.update k (now + d) (expires c)\<rparr>
             else c\<lparr>expires := AList.delete k (expires c)\<rparr>) = c1"
    by (simp add: c1_def ex_def)
  have exd: "distinct (map fst ex)"
    using cache_inv_expires_distinct[OF inv] by (simp add: ex_def distinct_update distinct_delete)
  have exk: "k' = k \<or> map_of (items c) k' \<noteq> None" if "map_of ex k' = Some t" for k' t
    using that cache_inv_expires[OF inv, of k' t]
    by (auto simp: ex_def update_conv' delete_conv' split: if_splits)
  show ?thesis
  proof (cases "map_of (items c) k")
    case None
    define entry where "entry = \<lparr>entry_key = k, entry_value = val\<rparr>"
    define c2 where "c2 = c1\<lparr>lru := PushBack entry (lru c1),
        items := AList.update k entry (items c1),
        usedBytes := usedBytes c1 + (of_nat (length k) + sz val)\<rparr>"
    have "cache_inv sz c2"
    proof (rule cache_inv_insert[OF inv None, where entry = entry])
      show "lru c2 = lru c @ [entry]" by (simp add: c2_def c1_def PushBack_def)
      show "items c2 = AList.update k entry (items c)" by (simp add: c2_def c1_def)
      show "usedBytes c2 = usedBytes c + entry_size sz entry"
        by (simp add: c2_def c1_def entry_size_def entry_def)
      show "entry_key entry = k" by (simp add: entry_def)
      show "distinct (map fst (expires c2))" using exd by (simp add: c2_def c1_def)
      show "k' = k \<or> map_of (items c) k' \<noteq> None" if "map_of (expires c2) k' = Some t" for k' t
        using exk[of k' t] that by (simp add: c2_def c1_def)
    qed
    from evict_inv[OF this, of now'] obtain c' where
      "evict sz now' c2 = Some (Inr c')" "cache_inv sz c'"
      "\<not> (0 <s maxBytes c' \<and> maxBytes c' <s usedBytes c')" by blast
    moreover have "SetWithExpiration sz now now' k v d c = evict sz now' c2"
      using Some None unfolding SetWithExpiration_def c1
      by (simp add: c2_def entry_def c1_def Let_def)
    ultimately show ?thesis by simp
  next
    case (Some elem)
    note some = this
    define elem' where "elem' = elem\<lparr>entry_value := val\<rparr>"
    define c2 where "c2 = c1\<lparr>usedBytes := usedBytes c1 + (sz val - sz (entry_value elem)),
        items := AList.update k elem' (items c1),
        lru := MoveToBack elem' (assign elem elem' (lru c1))\<rparr>"
    have inv1: "cache_inv sz c1"
      unfolding c1_def
    proof (rule expires_change_inv[OF inv exd])
      show "map_of (items c) k' \<noteq> None" if "map_of ex k' = Some t" for k' t
        using exk[OF that] some by auto
    qed
    have some1: "map_of (items c1) k = Some elem" using some by (simp add: c1_def)
    have "cache_inv sz c2"
      by (rule cache_inv_assign[OF inv1 some1 elem'_def]) (simp_all add: c2_def)
    moreover have "SetWithExpiration sz now now' k v d c = Some (Inr c2)"
      using \<open>v = Some val\<close> some1 unfolding SetWithExpiration_def c1
      by (simp add: c2_def elem'_def Let_def)
    ultimately show ?thesis using some by simp
  qed
qed

text \<open>
  A \<^verbatim>\<open>Set\<close> that inserts a new key ends in \<^verbatim>\<open>evict\<close> and returns within the byte limit.
\<close>

lemma Set_insert_within_budget:
  assumes "cache_inv sz c" "map_of (items c) k = None"
  shows "\<exists>c'. Set sz now' k (Some val) c = Some (Inr c') \<and>
           \<not> (0 <s maxBytes c' \<and> maxBytes c' <s usedBytes c')"
  using SetWithExpiration_inv[OF assms(1), of now' now' k "Some val" 0] assms(2)
  by (auto simp: Set_def)

text \<open>A \<^verbatim>\<open>Get\<close> that finds its key leaves the entry at the front of the list.\<close>

lemma Get_hit_moves_to_front:
  assumes "map_of (items c) k = Some elem" "elem \<in> set (lru c)"
    and "\<And>t. map_of (expires c) k = Some t \<Longrightarrow> \<not> now > t"
  shows "Front (lru (snd (snd (Get now k c)))) = Some elem"
  using assms by (auto simp: Get_def MoveToFront_def Front_def Let_def split: option.splits)

lemma maxBytes_change_inv:
  assumes inv: "cache_inv sz c"
  shows "cache_inv sz (c\<lparr>maxBytes := m\<rparr>)"
proof (rule cache_invI)
  show "distinct (map entry_key (lru (c\<lparr>maxBytes := m\<rparr>)))"
    using cache_inv_keys[OF inv] by simp
  show "distinct (map fst (items (c\<lparr>maxBytes := m\<rparr>)))"
    using cache_inv_items_distinct[OF inv] by simp
  show "distinct (map fst (expires (c\<lparr>maxBytes := m\<rparr>)))"
    using cache_inv_expires_distinct[OF inv] by simp
  show "elem \<in> set (lru (c\<lparr>maxBytes := m\<rparr>)) \<and> entry_key elem = k"
    if "map_of (items (c\<lparr>maxBytes := m\<rparr>)) k = Some elem" for k elem
    using cache_inv_items[OF inv, of k elem] that by simp
  show "map_of (items (c\<lparr>maxBytes := m\<rparr>)) (entry_key elem) = Some elem"
    if "elem \<in> set (lru (c\<lparr>maxBytes := m\<rparr>))" for elem
    using cache_inv_lru[OF inv, of elem] that by simp
  show "map_of (items (c\<lparr>maxBytes := m\<rparr>)) k \<noteq> None"
    if "map_of (expires (c\<lparr>maxBytes := m\<rparr>)) k = Some t" for k t
    using cache_inv_expires[OF inv, of k t] that by simp
  show "usedBytes (c\<lparr>maxBytes := m\<rparr>) = accounted sz (lru (c\<lparr>maxBytes := m\<rparr>))"
    using cache_inv_used[OF inv] by simp
qed

lemma SetMaxBytes_inv:
  assumes inv: "cache_inv sz c"
  shows "\<exists>c'. SetMaxBytes sz now m c = Some (Inr c') \<and> cache_inv sz c'"
  using evict_inv[OF maxBytes_change_inv[OF inv], of now m] maxBytes_change_inv[OF inv, of m]
  by (auto simp: SetMaxBytes_def Let_def)

text \<open>
  Every call on a cache that satisfies the invariant returns, without a panic, a cache
  that satisfies it; so does every sequence of calls on a new engine.
\<close>

lemma apply_op_inv:
  assumes inv: "cache_inv sz c"
  shows "\<exists>c'. apply_op sz x c = Some (Inr c') \<and> cache_inv sz c'"
proof (cases x)
  case (OpGet now k)
  then show ?thesis using Get_inv[OF inv] by simp
next
  case (OpSet now' k v)
  then show ?thesis using SetWithExpiration_inv[OF inv, of now' now' k v 0]
    by (auto simp: Set_def)
next
  case (OpSetWithExpiration now now' k v d)
  then show ?thesis using SetWithExpiration_inv[OF inv, of now now' k v d] by auto
next
  case (OpDelete k)
  then show ?thesis using Delete_inv[OF inv] by simp
next
  case OpClear
  then show ?thesis using Clear_inv by simp
next
  case (OpSetMaxBytes now m)
  then show ?thesis using SetMaxBytes_inv[OF inv] by simp
next
  case (OpGetWithExpiration now k)
  then show ?thesis using GetWithExpiration_inv[OF inv] by simp
next
  case (OpUpdateExpiration now k d)
  then show ?thesis using UpdateExpiration_inv[OF inv] by simp
next
  case (OpTick now)
  then show ?thesis using evict_inv[OF inv, of now] by (auto simp: cleanupTick_def)
qed

lemma run_inv:
  "cache_inv sz c \<Longrightarrow> \<exists>c'. run sz ops c = Some (Inr c') \<and> cache_inv sz c'"
proof (induction ops arbitrary: c)
  case Nil
  then show ?case by simp
next
  case (Cons x ops)
  from apply_op_inv[OF Cons.prems, of x] obtain c1 where
    c1: "apply_op sz x c = Some (Inr c1)" "cache_inv sz c1" by blast
  from Cons.IH[OF c1(2)] show ?case using c1(1) by simp
qed

lemma run_cache_inv:
  "\<exists>c. run sz ops (newLRUCache opts) = Some (Inr c) \<and> cache_inv sz c"
  by (rule run_inv[OF newLRUCache_inv])

text \<open>Under the invariant the Key Index and the Recency Index hold the same entries.\<close>

lemma cache_inv_live_entries:
  assumes inv: "cache_inv sz c"
  shows "mset (map snd (items c)) = mset (lru c)"
proof -
  have di: "distinct (map fst (items c))" by (rule cache_inv_items_distinct[OF inv])
  have key: "entry_key (snd p) = fst p" if "p \<in> set (items c)" for p
    using cache_inv_items[OF inv, of "fst p" "snd p"] that di by simp
  have "inj_on snd (set (items c))"
  proof (rule inj_onI)
    fix p q assume pq: "p \<in> set (items c)" "q \<in> set (items c)" "snd p = snd q"
    from key[OF pq(1)] key[OF pq(2)] pq(3) have "fst p = fst q" by simp
    with pq(3) show "p = q" by (simp add: prod_eq_iff)
  qed
  moreover have "distinct (items c)" using di by (rule distinct_map[THEN iffD1, THEN conjunct1])
  ultimately have d1: "distinct (map snd (items c))" by (simp add: distinct_map)
  have d2: "distinct (lru c)" using cache_inv_keys[OF inv] by (simp add: distinct_map)
  have s: "set (map snd (items c)) = set (lru c)"
  proof (intro set_eqI iffI)
    fix e assume "e \<in> set (map snd (items c))"
    then obtain k where "(k, e) \<in> set (items c)" by auto
    then have "map_of (items c) k = Some e" using di by simp
    from cache_inv_items[OF inv this] show "e \<in> set (lru c)" by simp
  next
    fix e assume "e \<in> set (lru c)"
    from cache_inv_lru[OF inv this] have "(entry_key e, e) \<in> set (items c)"
      by (rule map_of_SomeD)
    then show "e \<in> set (map snd (items c))" by force
  qed
  show ?thesis using set_eq_iff_mset_eq_distinct[OF d1 d2] s by blast
qed


section \<open>What each operation does to the counter and to the live entries\<close>

text \<open>
  \<^verbatim>\<open>evict\<close> only removes entries: what is left is part of what was there.
\<close>

lemma evict_expired_sub:
  "evict_expired sz now es c = Inr c' \<Longrightarrow> mset (lru c') \<subseteq># mset (lru c)"
proof (induction es arbitrary: c)
  case Nil
  then show ?case by simp
next
  case (Cons a es)
  obtain k expire where a: "a = (k, expire)" by (cases a)
  show ?case
  proof (cases "map_of (expires c) k \<noteq> None \<and> now > expire")
    case False
    then show ?thesis using Cons a by (auto split: if_splits)
  next
    case True
    with Cons.prems a obtain elem where e: "map_of (items c) k = Some elem"
      and r: "evict_expired sz now es (removeElement sz elem c) = Inr c'"
      by (auto split: option.splits)
    from Cons.IH[OF r] have "mset (lru c') \<subseteq># mset (remove1 elem (lru c))"
      by (simp add: removeElement_sel)
    also have "\<dots> \<subseteq># mset (lru c)" by simp
    finally show ?thesis .
  qed
qed

lemma evict_capacity_sub:
  assumes "evict_capacity sz c = Some c'"
  shows "mset (lru c') \<subseteq># mset (lru c)"
  using assms
proof (induction rule: evict_capacity.raw_induct[rotated, consumes 1])
  case (1 f sz c c')
  show ?case
  proof (cases "0 <s maxBytes c \<and> maxBytes c <s usedBytes c")
    case False
    with 1(2) show ?thesis by simp
  next
    case True
    show ?thesis
    proof (cases "lru c")
      case Nil
      with True 1(2) have "f sz c = Some c'" by (simp add: Front_def)
      from 1(1)[OF this] show ?thesis .
    next
      case (Cons elem rest)
      with True 1(2) have "f sz (removeElement sz elem c) = Some c'" by (simp add: Front_def)
      from 1(1)[OF this] have "mset (lru c') \<subseteq># mset (remove1 elem (lru c))"
        by (simp add: removeElement_sel)
      also have "\<dots> \<subseteq># mset (lru c)" by simp
      finally show ?thesis .
    qed
  qed
qed

lemma evict_sub:
  assumes "evict sz now c = Some (Inr c')"
  shows "mset (lru c') \<subseteq># mset (lru c)"
proof -
  from assms obtain c1 where c1: "evict_expired sz now (expires c) c = Inr c1"
    "evict_capacity sz c1 = Some c'"
    by (auto simp: evict_def split: sum.splits)
  from evict_capacity_sub[OF c1(2)] evict_expired_sub[OF c1(1)] show ?thesis
    by (rule subset_mset.order_trans)
qed

text \<open>The accounted size of the entries that were removed.\<close>

lemma accounted_diff:
  assumes "mset l' \<subseteq># mset l"
  shows "accounted sz l - accounted sz l' = sum_mset (image_mset (entry_size sz) (mset l - mset l'))"
proof -
  have "mset l = (mset l - mset l') + mset l'" using assms by simp
  then have "sum_mset (image_mset (entry_size sz) (mset l)) =
      sum_mset (image_mset (entry_size sz) (mset l - mset l')) +
      sum_mset (image_mset (entry_size sz) (mset l'))"
    by (metis image_mset_union sum_mset.union)
  moreover have "accounted sz xs = sum_mset (image_mset (entry_size sz) (mset xs))" for xs
    unfolding accounted_def by (metis mset_map sum_mset_sum_list)
  ultimately show ?thesis by simp
qed

lemma mset_assign:
  "distinct l \<Longrightarrow> elem \<in> set l \<Longrightarrow>
   mset (assign elem elem' l) = mset l - {#elem#} + {#elem'#}"
proof (induction l)
  case Nil
  then show ?case by simp
next
  case (Cons a l)
  show ?case
  proof (cases "a = elem")
    case True
    then have "elem \<notin> set l" using Cons.prems by simp
    then have "assign elem elem' (a # l) = elem' # l"
      using True assign_notin[of elem l elem'] by (simp add: assign_def)
    then show ?thesis using True by simp
  next
    case False
    then have "assign elem elem' (a # l) = a # assign elem elem' l"
      by (simp add: assign_def)
    then show ?thesis using False Cons by simp
  qed
qed

text \<open>
  \<^verbatim>\<open>SetWithExpiration\<close> of a new key, of a key the cache holds, and \<^verbatim>\<open>Delete\<close> of a key
  the cache holds, on a cache that satisfies the invariant.
\<close>

lemma SetWithExpiration_insert:
  assumes inv: "cache_inv sz c" and none: "map_of (items c) k = None"
  shows "\<exists>c2 c'. c2 = c\<lparr>expires := (if 0 < d then AList.update k (now + d) (expires c)
                                 else AList.delete k (expires c)),
                     lru := lru c @ [\<lparr>entry_key = k, entry_value = val\<rparr>],
                     items := AList.update k \<lparr>entry_key = k, entry_value = val\<rparr> (items c),
                     usedBytes := usedBytes c + (of_nat (length k) + sz val)\<rparr> \<and>
           SetWithExpiration sz now now' k (Some val) d c = evict sz now' c2 \<and>
           evict sz now' c2 = Some (Inr c') \<and> cache_inv sz c' \<and>
           mset (lru c') \<subseteq># mset (lru c2) \<and>
           usedBytes c2 - usedBytes c' =
             sum_mset (image_mset (entry_size sz) (mset (lru c2) - mset (lru c')))"
proof -
  define ex where "ex = (if d > 0 then AList.update k (now + d) (expires c)
                         else AList.delete k (expires c))"
  define entry where "entry = \<lparr>entry_key = k, entry_value = val\<rparr>"
  define c2 where "c2 = c\<lparr>expires := ex, lru := PushBack entry (lru c),
      items := AList.update k entry (items c),
      usedBytes := usedBytes c + (of_nat (length k) + sz val)\<rparr>"
  have exd: "distinct (map fst ex)"
    using cache_inv_expires_distinct[OF inv] by (simp add: ex_def distinct_update distinct_delete)
  have exk: "k' = k \<or> map_of (items c) k' \<noteq> None" if "map_of ex k' = Some t" for k' t
    using that cache_inv_expires[OF inv, of k' t]
    by (auto simp: ex_def update_conv' delete_conv' split: if_splits)
  have inv2: "cache_inv sz c2"
  proof (rule cache_inv_insert[OF inv none, where entry = entry])
    show "lru c2 = lru c @ [entry]" by (simp add: c2_def PushBack_def)
    show "items c2 = AList.update k entry (items c)" by (simp add: c2_def)
    show "usedBytes c2 = usedBytes c + entry_size sz entry"
      by (simp add: c2_def entry_size_def entry_def)
    show "entry_key entry = k" by (simp add: entry_def)
    show "distinct (map fst (expires c2))" using exd by (simp add: c2_def)
    show "k' = k \<or> map_of (items c) k' \<noteq> None" if "map_of (expires c2) k' = Some t" for k' t
      using exk[of k' t] that by (simp add: c2_def)
  qed
  from evict_inv[OF inv2, of now'] obtain c' where
    c': "evict sz now' c2 = Some (Inr c')" "cache_inv sz c'" by blast
  have sub: "mset (lru c') \<subseteq># mset (lru c2)" by (rule evict_sub[OF c'(1)])
  have delta: "usedBytes c2 - usedBytes c' =
      sum_mset (image_mset (entry_size sz) (mset (lru c2) - mset (lru c')))"
    using accounted_diff[OF sub, of sz] cache_inv_used[OF inv2] cache_inv_used[OF c'(2)] by simp
  have call: "SetWithExpiration sz now now' k (Some val) d c = evict sz now' c2"
    using none by (simp add: SetWithExpiration_def c2_def entry_def ex_def Let_def)
  have "c2 = c\<lparr>expires := (if 0 < d then AList.update k (now + d) (expires c)
                                 else AList.delete k (expires c)),
                     lru := lru c @ [\<lparr>entry_key = k, entry_value = val\<rparr>],
                     items := AList.update k \<lparr>entry_key = k, entry_value = val\<rparr> (items c),
                     usedBytes := usedBytes c + (of_nat (length k) + sz val)\<rparr>"
    by (simp add: c2_def ex_def PushBack_def entry_def)
  then show ?thesis using call c' sub delta by blast
qed

lemma SetWithExpiration_update:
  assumes inv: "cache_inv sz c" and some: "map_of (items c) k = Some elem"
  shows "\<exists>c'. SetWithExpiration sz now now' k (Some val) d c = Some (Inr c') \<and>
           cache_inv sz c' \<and>
           usedBytes c' = usedBytes c + (sz val - sz (entry_value elem)) \<and>
           mset (lru c') = mset (lru c) - {#elem#} + {#elem\<lparr>entry_value := val\<rparr>#}"
proof -
  define ex where "ex = (if d > 0 then AList.update k (now + d) (expires c)
                         else AList.delete k (expires c))"
  define c1 where "c1 = c\<lparr>expires := ex\<rparr>"
  define elem' where "elem' = elem\<lparr>entry_value := val\<rparr>"
  define c2 where "c2 = c1\<lparr>usedBytes := usedBytes c1 + (sz val - sz (entry_value elem)),
      items := AList.update k elem' (items c1),
      lru := MoveToBack elem' (assign elem elem' (lru c1))\<rparr>"
  have exd: "distinct (map fst ex)"
    using cache_inv_expires_distinct[OF inv] by (simp add: ex_def distinct_update distinct_delete)
  have inv1: "cache_inv sz c1"
    unfolding c1_def
  proof (rule expires_change_inv[OF inv exd])
    show "map_of (items c) k' \<noteq> None" if "map_of ex k' = Some t" for k' t
      using that cache_inv_expires[OF inv, of k' t] some
      by (auto simp: ex_def update_conv' delete_conv' split: if_splits)
  qed
  have some1: "map_of (items c1) k = Some elem" using some by (simp add: c1_def)
  have inv2: "cache_inv sz c2"
    by (rule cache_inv_assign[OF inv1 some1 elem'_def]) (simp_all add: c2_def)
  have call: "SetWithExpiration sz now now' k (Some val) d c = Some (Inr c2)"
    using some by (simp add: SetWithExpiration_def c2_def c1_def elem'_def ex_def Let_def)
  have mem: "elem \<in> set (lru c)" using cache_inv_items[OF inv some] by simp
  have dl: "distinct (lru c)" using cache_inv_keys[OF inv] by (simp add: distinct_map)
  have "mset (lru c2) = mset (assign elem elem' (lru c))"
    by (simp add: c2_def c1_def mset_MoveToBack)
  then have live: "mset (lru c2) = mset (lru c) - {#elem#} + {#elem\<lparr>entry_value := val\<rparr>#}"
    using mset_assign[OF dl mem, of elem'] by (simp add: elem'_def)
  have "usedBytes c2 = usedBytes c + (sz val - sz (entry_value elem))"
    by (simp add: c2_def c1_def)
  with call inv2 live show ?thesis by blast
qed

lemma Delete_present:
  assumes inv: "cache_inv sz c" and some: "map_of (items c) k = Some elem"
  shows "fst (Delete sz k c) \<and>
         usedBytes (snd (Delete sz k c)) = usedBytes c - (of_nat (length k) + sz (entry_value elem)) \<and>
         mset (lru (snd (Delete sz k c))) = mset (lru c) - {#elem#}"
proof -
  have "entry_key elem = k" using cache_inv_items[OF inv some] by simp
  then show ?thesis using some
    by (simp add: Delete_def removeElement_sel entry_size_def)
qed

text \<open>A sequence of steps in two parts.\<close>

lemma run_append:
  "run sz (xs @ ys) c =
     (case run sz xs c of Some (Inr c') \<Rightarrow> run sz ys c' | r \<Rightarrow> r)"
  by (induction xs arbitrary: c) (auto split: option.splits sum.splits)

text \<open>The equations that evaluate a call on a concrete cache.\<close>

lemmas eval_defs = run.simps apply_op.simps Set_def SetWithExpiration_def newLRUCache_def
  NewOptions_def evict_def evict_capacity.simps cleanupTick_def word_sless_alt PushBack_def
  Get_def MoveToFront_def MoveToBack_def SetMaxBytes_def Front_def removeElement_def Remove_def
  entry_size_def Let_def assign_def Delete_def Minute_def Millisecond_def Len_def
  Len0_def Len4_def Len5_def Len10_def Len_4_20_3_def

text \<open>
  The cache \<open>stuck_cache\<close> arises from public calls when a stored value shrinks: stored
  while it has 5 bytes and deleted when it has none, the entry leaves 5 bytes on the
  counter of an empty cache, and \<^verbatim>\<open>SetMaxBytes(1)\<close> then runs \<^verbatim>\<open>evict\<close> on \<open>stuck_cache\<close>.
\<close>

lemma stuck_cache_reachable:
  "Set Len5 0 ''a'' (Some (Value 1)) (newLRUCache (NewOptions\<lparr>MaxBytes := 0\<rparr>))
     = Some (Inr \<lparr>lru = [\<lparr>entry_key = ''a'', entry_value = Value 1\<rparr>],
         items = [(''a'', \<lparr>entry_key = ''a'', entry_value = Value 1\<rparr>)],
         expires = [], maxBytes = 0, usedBytes = 6,
         onEvicted = False, cleanupInterval = Minute, evicted = []\<rparr>)"
  "Delete Len0 ''a'' \<lparr>lru = [\<lparr>entry_key = ''a'', entry_value = Value 1\<rparr>],
         items = [(''a'', \<lparr>entry_key = ''a'', entry_value = Value 1\<rparr>)],
         expires = [], maxBytes = 0, usedBytes = 6,
         onEvicted = False, cleanupInterval = Minute, evicted = []\<rparr>
     = (True, stuck_cache\<lparr>maxBytes := 0\<rparr>)"
  "SetMaxBytes Len0 1 1 (stuck_cache\<lparr>maxBytes := 0\<rparr>) = evict Len0 1 stuck_cache"
    apply (simp add: stuck_cache_def eval_defs)
   apply (simp add: stuck_cache_def eval_defs)
  apply (simp add: SetMaxBytes_def Let_def stuck_cache_def word_sless_alt)
  done

section \<open>The claims\<close>

subsection \<open>C1: recency ordering drives eviction\<close>

text \<open>
  Claim C1 expects that after A, B, C are inserted without a limit and A is read, a
  capacity drop that forces one eviction evicts B. The code evicts A. The insertions push
  at the back and the capacity loop removes \<^verbatim>\<open>c.lru.Front()\<close>, so the front is the end
  eviction takes from; \<^verbatim>\<open>Get\<close> calls \<^verbatim>\<open>MoveToFront\<close> and so leaves A, the entry just read,
  first in line (\<open>Get_hit_moves_to_front\<close>), whereas \<^verbatim>\<open>GetWithExpiration\<close> calls
  \<^verbatim>\<open>MoveToBack\<close>. The theorem evaluates the scenario: the one callback invocation is for
  A, and B and C stay.
\<close>

theorem recency_scenario_evicts_A:
  "recency_scenario = Some (Inr
     \<lparr>lru = [\<lparr>entry_key = ''B'', entry_value = Value 2\<rparr>,
             \<lparr>entry_key = ''C'', entry_value = Value 3\<rparr>],
      items = [(''B'', \<lparr>entry_key = ''B'', entry_value = Value 2\<rparr>),
               (''C'', \<lparr>entry_key = ''C'', entry_value = Value 3\<rparr>)],
      expires = [], maxBytes = 10, usedBytes = 10, onEvicted = True,
      cleanupInterval = Minute, evicted = [(''A'', Value 1)]\<rparr>)"
  by (simp add: recency_scenario_def eval_defs)

subsection \<open>C2: the byte limit after every Set\<close>

text \<open>
  Claim C2 says that with \<open>maxBytes > 0\<close> every \<^verbatim>\<open>Set\<close> returns with
  \<open>usedBytes \<le> maxBytes\<close>, also when it updates an existing key. The update path of
  \<^verbatim>\<open>SetWithExpiration\<close> returns before \<^verbatim>\<open>c.evict()\<close>; only an insertion reaches it
  (\<open>Set_insert_within_budget\<close>). The theorem evaluates two calls on an engine limited to
  10 bytes: the second, an update, returns with 21 bytes in use.
\<close>

theorem update_scenario_over_budget:
  "update_scenario = Some (Inr
     \<lparr>lru = [\<lparr>entry_key = ''a'', entry_value = Value 2\<rparr>],
      items = [(''a'', \<lparr>entry_key = ''a'', entry_value = Value 2\<rparr>)],
      expires = [], maxBytes = 10, usedBytes = 21, onEvicted = False,
      cleanupInterval = Minute, evicted = []\<rparr>)"
  by (simp add: update_scenario_def eval_defs)

subsection \<open>C3: the capacity pass terminates\<close>

text \<open>
  Claim C3 says that the capacity pass stops for every cache state, also when the
  Recency Index is empty and \<open>usedBytes\<close> still exceeds \<open>maxBytes\<close>. In that state the
  loop of the code tests \<^verbatim>\<open>elem != nil\<close>, skips the removal and tests its condition
  again, for ever: \<open>evict_capacity\<close>, \<open>evict\<close> and \<^verbatim>\<open>SetMaxBytes\<close> do not return, whatever
  the sizes of the values. (On every cache that satisfies \<open>cache_inv\<close> the loop does
  return: \<open>evict_capacity_inv\<close>. The state of the theorem arises from public calls:
  \<open>stuck_cache_reachable\<close>.)
\<close>

theorem stuck_cache_never_returns:
  "evict_capacity sz stuck_cache = None \<and> evict sz 0 stuck_cache = None \<and>
   SetMaxBytes sz 0 1 stuck_cache = None"
proof -
  have "evict_capacity sz stuck_cache = None"
    by (rule evict_capacity_stuck) (simp_all add: stuck_cache_def word_sless_alt)
  moreover have "stuck_cache\<lparr>maxBytes := 1\<rparr> = stuck_cache" by (simp add: stuck_cache_def)
  ultimately show ?thesis
    by (simp add: evict_def SetMaxBytes_def Let_def word_sless_alt) (simp add: stuck_cache_def)
qed

subsection \<open>C4: usedBytes is the accounted size of the live entries\<close>

text \<open>
  Claim C4, as amended: for every sequence of steps on a new engine during which every
  value keeps the size it reports (\<open>run sz\<close>; the steps are \<^verbatim>\<open>Set\<close>,
  \<^verbatim>\<open>SetWithExpiration\<close> and \<^verbatim>\<open>Delete\<close>, and the other operations and the cleanup ticks
  as well), every step returns, and in the cache \<open>c\<close> after the sequence
  \<^item> \<open>usedBytes\<close> is the sum of key length plus value size over the entries of the
    Recency Index, which are the entries of the Key Index (the sum taken in \<^verbatim>\<open>int64\<close>, as
    the counter is);
  \<^item> a \<^verbatim>\<open>Delete\<close> of a key the cache holds subtracts the key length plus the value size
    and removes that one entry;
  \<^item> a \<^verbatim>\<open>SetWithExpiration\<close> of a key the cache holds adds the new value's size minus
    the old one's and replaces the value of that one entry;
  \<^item> a \<^verbatim>\<open>SetWithExpiration\<close> of a new key appends the entry and adds the key length plus
    the value size, and then runs \<^verbatim>\<open>evict\<close>, which returns, only removes entries, and
    subtracts the accounted size of each entry it removes.
  \<^verbatim>\<open>Set\<close> is \<^verbatim>\<open>SetWithExpiration\<close> with the duration 0 (\<open>Set_def\<close>).
\<close>

theorem usedBytes_accounting:
  "\<exists>c. run sz ops (newLRUCache opts) = Some (Inr c) \<and>
       usedBytes c = sum_list (map (entry_size sz) (lru c)) \<and>
       mset (map snd (items c)) = mset (lru c) \<and>
       (\<forall>k elem. map_of (items c) k = Some elem \<longrightarrow>
          fst (Delete sz k c) \<and>
          usedBytes (snd (Delete sz k c))
            = usedBytes c - (of_nat (length k) + sz (entry_value elem)) \<and>
          mset (lru (snd (Delete sz k c))) = mset (lru c) - {#elem#}) \<and>
       (\<forall>k elem val now now' d. map_of (items c) k = Some elem \<longrightarrow>
          (\<exists>c'. SetWithExpiration sz now now' k (Some val) d c = Some (Inr c') \<and>
             usedBytes c' = usedBytes c + (sz val - sz (entry_value elem)) \<and>
             mset (lru c') = mset (lru c) - {#elem#} + {#elem\<lparr>entry_value := val\<rparr>#})) \<and>
       (\<forall>k val now now' d. map_of (items c) k = None \<longrightarrow>
          (\<exists>c2 c'. c2 = c\<lparr>expires := (if 0 < d then AList.update k (now + d) (expires c)
                                 else AList.delete k (expires c)),
                     lru := lru c @ [\<lparr>entry_key = k, entry_value = val\<rparr>],
                     items := AList.update k \<lparr>entry_key = k, entry_value = val\<rparr> (items c),
                     usedBytes := usedBytes c + (of_nat (length k) + sz val)\<rparr> \<and>
             SetWithExpiration sz now now' k (Some val) d c = evict sz now' c2 \<and>
             evict sz now' c2 = Some (Inr c') \<and>
             mset (lru c') \<subseteq># mset (lru c2) \<and>
             usedBytes c2 - usedBytes c'
               = sum_mset (image_mset (entry_size sz) (mset (lru c2) - mset (lru c')))))"
proof -
  from run_cache_inv[of sz ops opts] obtain c where
    c: "run sz ops (newLRUCache opts) = Some (Inr c)" and inv: "cache_inv sz c" by blast
  have sum: "usedBytes c = sum_list (map (entry_size sz) (lru c))"
    using cache_inv_used[OF inv] by (simp add: accounted_def)
  have live: "mset (map snd (items c)) = mset (lru c)"
    by (rule cache_inv_live_entries[OF inv])
  have del: "\<forall>k elem. map_of (items c) k = Some elem \<longrightarrow>
      fst (Delete sz k c) \<and>
      usedBytes (snd (Delete sz k c))
        = usedBytes c - (of_nat (length k) + sz (entry_value elem)) \<and>
      mset (lru (snd (Delete sz k c))) = mset (lru c) - {#elem#}"
  proof (intro allI impI)
    fix k elem assume "map_of (items c) k = Some elem"
    then show "fst (Delete sz k c) \<and>
      usedBytes (snd (Delete sz k c))
        = usedBytes c - (of_nat (length k) + sz (entry_value elem)) \<and>
      mset (lru (snd (Delete sz k c))) = mset (lru c) - {#elem#}"
      by (rule Delete_present[OF inv])
  qed
  have upd: "\<forall>k elem val now now' d. map_of (items c) k = Some elem \<longrightarrow>
      (\<exists>c'. SetWithExpiration sz now now' k (Some val) d c = Some (Inr c') \<and>
         usedBytes c' = usedBytes c + (sz val - sz (entry_value elem)) \<and>
         mset (lru c') = mset (lru c) - {#elem#} + {#elem\<lparr>entry_value := val\<rparr>#})"
  proof (intro allI impI)
    fix k elem val now now' d assume some: "map_of (items c) k = Some elem"
    from SetWithExpiration_update[OF inv some, of now now' val d] obtain c' where
      "SetWithExpiration sz now now' k (Some val) d c = Some (Inr c')"
      "usedBytes c' = usedBytes c + (sz val - sz (entry_value elem))"
      "mset (lru c') = mset (lru c) - {#elem#} + {#elem\<lparr>entry_value := val\<rparr>#}"
      by blast
    then show "\<exists>c'. SetWithExpiration sz now now' k (Some val) d c = Some (Inr c') \<and>
         usedBytes c' = usedBytes c + (sz val - sz (entry_value elem)) \<and>
         mset (lru c') = mset (lru c) - {#elem#} + {#elem\<lparr>entry_value := val\<rparr>#}"
      by (intro exI[of _ c'] conjI)
  qed
  have ins: "\<forall>k val now now' d. map_of (items c) k = None \<longrightarrow>
      (\<exists>c2 c'. c2 = c\<lparr>expires := (if 0 < d then AList.update k (now + d) (expires c)
                                 else AList.delete k (expires c)),
                     lru := lru c @ [\<lparr>entry_key = k, entry_value = val\<rparr>],
                     items := AList.update k \<lparr>entry_key = k, entry_value = val\<rparr> (items c),
                     usedBytes := usedBytes c + (of_nat (length k) + sz val)\<rparr> \<and>
         SetWithExpiration sz now now' k (Some val) d c = evict sz now' c2 \<and>
         evict sz now' c2 = Some (Inr c') \<and>
         mset (lru c') \<subseteq># mset (lru c2) \<and>
         usedBytes c2 - usedBytes c'
           = sum_mset (image_mset (entry_size sz) (mset (lru c2) - mset (lru c'))))"
  proof (intro allI impI)
    fix k val now now' d assume none: "map_of (items c) k = None"
    from SetWithExpiration_insert[OF inv none, where val = val and now = now and now' = now'
        and d = d] obtain c2 c' where
      "c2 = c\<lparr>expires := (if 0 < d then AList.update k (now + d) (expires c)
                                 else AList.delete k (expires c)),
                     lru := lru c @ [\<lparr>entry_key = k, entry_value = val\<rparr>],
                     items := AList.update k \<lparr>entry_key = k, entry_value = val\<rparr> (items c),
                     usedBytes := usedBytes c + (of_nat (length k) + sz val)\<rparr>"
      "SetWithExpiration sz now now' k (Some val) d c = evict sz now' c2"
      "evict sz now' c2 = Some (Inr c')"
      "mset (lru c') \<subseteq># mset (lru c2)"
      "usedBytes c2 - usedBytes c'
         = sum_mset (image_mset (entry_size sz) (mset (lru c2) - mset (lru c')))"
      by blast
    then show "\<exists>c2 c'. c2 = c\<lparr>expires := (if 0 < d then AList.update k (now + d) (expires c)
                                 else AList.delete k (expires c)),
                     lru := lru c @ [\<lparr>entry_key = k, entry_value = val\<rparr>],
                     items := AList.update k \<lparr>entry_key = k, entry_value = val\<rparr> (items c),
                     usedBytes := usedBytes c + (of_nat (length k) + sz val)\<rparr> \<and>
         SetWithExpiration sz now now' k (Some val) d c = evict sz now' c2 \<and>
         evict sz now' c2 = Some (Inr c') \<and>
         mset (lru c') \<subseteq># mset (lru c2) \<and>
         usedBytes c2 - usedBytes c'
           = sum_mset (image_mset (entry_size sz) (mset (lru c2) - mset (lru c')))"
      by (intro exI[of _ c2] exI[of _ c'] conjI)
  qed
  show ?thesis
    by (rule exI[of _ c]) (intro conjI c sum live del upd ins)
qed

theorem usedBytes_accounting_witness:
  "run Len_4_20_3 [OpSet 0 ''a'' (Some (Value 1))] (newLRUCache NewOptions) = Some (Inr one_entry) \<and>
   usedBytes one_entry = sum_list (map (entry_size Len_4_20_3) (lru one_entry)) \<and>
   map_of (items one_entry) ''a'' = Some \<lparr>entry_key = ''a'', entry_value = Value 1\<rparr> \<and>
   usedBytes (snd (Delete Len_4_20_3 ''a'' one_entry)) = usedBytes one_entry - (1 + 4) \<and>
   (\<exists>c'. Set Len_4_20_3 1 ''a'' (Some (Value 2)) one_entry = Some (Inr c') \<and>
         usedBytes c' = usedBytes one_entry + (20 - 4)) \<and>
   map_of (items one_entry) ''b'' = None \<and>
   (\<exists>c2 c'. usedBytes c2 = usedBytes one_entry + (1 + 20) \<and>
         Set Len_4_20_3 1 ''b'' (Some (Value 2)) one_entry = evict Len_4_20_3 1 c2 \<and>
         evict Len_4_20_3 1 c2 = Some (Inr c'))"
proof -
  have r: "run Len_4_20_3 [OpSet 0 ''a'' (Some (Value 1))] (newLRUCache NewOptions)
      = Some (Inr one_entry)"
    by (simp add: one_entry_def eval_defs)
  have a: "map_of (items one_entry) ''a'' = Some \<lparr>entry_key = ''a'', entry_value = Value 1\<rparr>"
    and b: "map_of (items one_entry) ''b'' = None"
    by (simp_all add: one_entry_def)
  from usedBytes_accounting[of Len_4_20_3 "[OpSet 0 ''a'' (Some (Value 1))]" NewOptions]
  obtain c where c: "run Len_4_20_3 [OpSet 0 ''a'' (Some (Value 1))] (newLRUCache NewOptions)
      = Some (Inr c)"
    and sum: "usedBytes c = sum_list (map (entry_size Len_4_20_3) (lru c))"
    and del: "\<forall>k elem. map_of (items c) k = Some elem \<longrightarrow>
      fst (Delete Len_4_20_3 k c) \<and>
      usedBytes (snd (Delete Len_4_20_3 k c))
        = usedBytes c - (of_nat (length k) + Len_4_20_3 (entry_value elem)) \<and>
      mset (lru (snd (Delete Len_4_20_3 k c))) = mset (lru c) - {#elem#}"
    and upd: "\<forall>k elem val now now' d. map_of (items c) k = Some elem \<longrightarrow>
      (\<exists>c'. SetWithExpiration Len_4_20_3 now now' k (Some val) d c = Some (Inr c') \<and>
         usedBytes c' = usedBytes c + (Len_4_20_3 val - Len_4_20_3 (entry_value elem)) \<and>
         mset (lru c') = mset (lru c) - {#elem#} + {#elem\<lparr>entry_value := val\<rparr>#})"
    and ins: "\<forall>k val now now' d. map_of (items c) k = None \<longrightarrow>
      (\<exists>c2 c'. c2 = c\<lparr>expires := (if 0 < d then AList.update k (now + d) (expires c)
                                 else AList.delete k (expires c)),
                     lru := lru c @ [\<lparr>entry_key = k, entry_value = val\<rparr>],
                     items := AList.update k \<lparr>entry_key = k, entry_value = val\<rparr> (items c),
                     usedBytes := usedBytes c + (of_nat (length k) + Len_4_20_3 val)\<rparr> \<and>
         SetWithExpiration Len_4_20_3 now now' k (Some val) d c = evict Len_4_20_3 now' c2 \<and>
         evict Len_4_20_3 now' c2 = Some (Inr c') \<and>
         mset (lru c') \<subseteq># mset (lru c2) \<and>
         usedBytes c2 - usedBytes c'
           = sum_mset (image_mset (entry_size Len_4_20_3) (mset (lru c2) - mset (lru c'))))"
    by (elim exE conjE)
  have ce: "c = one_entry" using c r by simp
  note sum = sum[unfolded ce] and del = del[unfolded ce] and upd = upd[unfolded ce]
    and ins = ins[unfolded ce]
  from del a have d1: "usedBytes (snd (Delete Len_4_20_3 ''a'' one_entry)) = usedBytes one_entry - (1 + 4)"
    by (simp add: Len_4_20_3_def)
  from upd[rule_format, OF a, of 1 1 "Value 2" 0] obtain c' where
    "SetWithExpiration Len_4_20_3 1 1 ''a'' (Some (Value 2)) 0 one_entry = Some (Inr c')"
    "usedBytes c' = usedBytes one_entry
       + (Len_4_20_3 (Value 2) - Len_4_20_3 (entry_value \<lparr>entry_key = ''a'', entry_value = Value 1\<rparr>))"
    by blast
  then have u1: "\<exists>c'. Set Len_4_20_3 1 ''a'' (Some (Value 2)) one_entry = Some (Inr c') \<and>
         usedBytes c' = usedBytes one_entry + (20 - 4)"
    by (auto simp: Set_def Len_4_20_3_def)
  from ins[rule_format, OF b, where val = "Value 2" and now = 1 and now' = 1 and d = 0]
  obtain c2 c' where
    c2: "c2 = one_entry\<lparr>expires := (if (0::int) < 0 then AList.update ''b'' (1 + 0) (expires one_entry)
                                 else AList.delete ''b'' (expires one_entry)),
                     lru := lru one_entry @ [\<lparr>entry_key = ''b'', entry_value = Value 2\<rparr>],
                     items := AList.update ''b'' \<lparr>entry_key = ''b'', entry_value = Value 2\<rparr> (items one_entry),
                     usedBytes := usedBytes one_entry + (of_nat (length ''b'') + Len_4_20_3 (Value 2))\<rparr>"
    and s2: "SetWithExpiration Len_4_20_3 1 1 ''b'' (Some (Value 2)) 0 one_entry = evict Len_4_20_3 1 c2"
    and e2: "evict Len_4_20_3 1 c2 = Some (Inr c')"
    by blast
  have u2: "usedBytes c2 = usedBytes one_entry + (1 + 20)"
    by (simp add: c2 Len_4_20_3_def)
  have s2': "Set Len_4_20_3 1 ''b'' (Some (Value 2)) one_entry = evict Len_4_20_3 1 c2"
    unfolding Set_def by (rule s2)
  have i1: "\<exists>c2 c'. usedBytes c2 = usedBytes one_entry + (1 + 20) \<and>
         Set Len_4_20_3 1 ''b'' (Some (Value 2)) one_entry = evict Len_4_20_3 1 c2 \<and>
         evict Len_4_20_3 1 c2 = Some (Inr c')"
    by (intro exI[of _ c2] exI[of _ c'] conjI u2 s2' e2)
  from r sum a d1 u1 b i1 show ?thesis by blast
qed

text \<open>
  The claim as it was stated speaks of every sequence of calls. It fails where a value
  changes its size while the cache holds it: \<^verbatim>\<open>removeElement\<close> subtracts what
  \<^verbatim>\<open>Len()\<close> returns at the removal, not what was added. Stored with 10 bytes and deleted
  with none, the value leaves 10 bytes on the counter of a cache with no entry.
\<close>

theorem usedBytes_resized_counterexample:
  "Set Len10 0 ''a'' (Some (Value 1)) (newLRUCache NewOptions) = Some (Inr grown_cache) \<and>
   Delete Len0 ''a'' grown_cache = (True, shrunk_cache) \<and>
   lru shrunk_cache = [] \<and> usedBytes shrunk_cache = 10 \<and>
   usedBytes shrunk_cache \<noteq> sum_list (map (entry_size Len0) (lru shrunk_cache))"
  by (simp add: grown_cache_def shrunk_cache_def eval_defs)

subsection \<open>C5: the TTL scenario\<close>

text \<open>
  Claim C5, as amended: on a new engine in which the entry fits, after
  \<^verbatim>\<open>SetWithExpiration(k, v, d)\<close> with \<open>d > 0\<close> the entry is counted (\<open>Len = 1\<close>), cleanup
  ticks up to the expiry instant leave it, and a \<^verbatim>\<open>Get(k)\<close> no later than the expiry
  instant returns \<open>(v, true)\<close>. After the expiry instant, whatever cleanup ticks have
  fired, \<^verbatim>\<open>Get(k)\<close> returns \<open>(nil, false)\<close>; it starts a goroutine for \<^verbatim>\<open>Delete(k)\<close> where
  it still finds the entry. The entry is no longer counted (\<open>Len = 0\<close>) once the
  goroutines that this \<^verbatim>\<open>Get\<close> started have run, whatever cleanup ticks fire before and
  after them; until then it may still be counted.
\<close>

theorem ttl_get_then_expire:
  assumes d: "0 < d" and evict_time: "now' \<le> now + d"
    and fits: "\<not> (0 <s MaxBytes opts \<and> MaxBytes opts <s of_nat (length k) + sz v)"
  shows "\<exists>c1. SetWithExpiration sz now now' k (Some v) d (newLRUCache opts) = Some (Inr c1) \<and>
      Len c1 = 1 \<and>
      (\<forall>ts. (\<forall>t\<in>set ts. t \<le> now + d) \<longrightarrow> run sz (map OpTick ts) c1 = Some (Inr c1)) \<and>
      (\<forall>t1. t1 \<le> now + d \<longrightarrow> Get t1 k c1 = ((Some v, True), [], c1)) \<and>
      (\<forall>ts t2. now + d < t2 \<longrightarrow>
         (\<exists>c2 started. run sz (map OpTick ts) c1 = Some (Inr c2) \<and>
            Get t2 k c2 = ((None, False), started, c2) \<and>
            (\<forall>ts' ts''. \<exists>c3.
               run sz (map OpTick ts' @ map OpDelete started @ map OpTick ts'') c2 = Some (Inr c3) \<and>
               Len c3 = 0)))"
proof -
  define entry where "entry = \<lparr>entry_key = k, entry_value = v\<rparr>"
  define c1 where "c1 = (newLRUCache opts)\<lparr>expires := [(k, now + d)], lru := [entry],
     items := [(k, entry)], usedBytes := of_nat (length k) + sz v\<rparr>"
  define gone where "gone = (newLRUCache opts)\<lparr>evicted := (if OnEvicted opts then [(k, v)] else [])\<rparr>"
  have rm: "removeElement sz entry c1 = gone"
    by (simp add: removeElement_def Remove_def c1_def gone_def entry_def entry_size_def
        newLRUCache_def Let_def)
  have cap1: "evict_capacity sz c1 = Some c1"
    by (rule evict_capacity_done) (use fits in \<open>simp add: c1_def newLRUCache_def Let_def\<close>)
  have cap0: "evict_capacity sz gone = Some gone"
    by (rule evict_capacity_done) (simp add: gone_def newLRUCache_def Let_def word_sless_alt)
  have early: "evict sz t c1 = Some (Inr c1)" if "t \<le> now + d" for t
    using that cap1 by (simp add: evict_def c1_def)
  have late: "evict sz t c1 = Some (Inr gone)" if "now + d < t" for t
  proof -
    have "evict_expired sz t (expires c1) c1 = Inr (removeElement sz entry c1)"
      using that by (simp add: c1_def)
    then show ?thesis using cap0 by (simp add: evict_def rm)
  qed
  have idle: "evict sz t gone = Some (Inr gone)" for t
    using cap0 by (simp add: evict_def gone_def newLRUCache_def Let_def)
  have set: "SetWithExpiration sz now now' k (Some v) d (newLRUCache opts) = Some (Inr c1)"
  proof -
    have "SetWithExpiration sz now now' k (Some v) d (newLRUCache opts) = evict sz now' c1"
      using d by (simp add: SetWithExpiration_def Let_def PushBack_def newLRUCache_def c1_def entry_def)
    then show ?thesis using early[OF evict_time] by simp
  qed
  have len1: "Len c1 = 1" by (simp add: Len_def c1_def)
  have len0: "Len gone = 0" by (simp add: Len_def gone_def newLRUCache_def Let_def)
  have ticks_early: "run sz (map OpTick ts) c1 = Some (Inr c1)" if "\<forall>t\<in>set ts. t \<le> now + d" for ts
    using that by (induction ts) (simp_all add: cleanupTick_def early)
  have ticks_gone: "run sz (map OpTick ts) gone = Some (Inr gone)" for ts
    by (induction ts) (simp_all add: cleanupTick_def idle)
  have ticks_any: "run sz (map OpTick ts) c1 = Some (Inr c1) \<or>
      run sz (map OpTick ts) c1 = Some (Inr gone)" for ts
  proof (induction ts)
    case Nil
    then show ?case by simp
  next
    case (Cons t ts)
    show ?case
    proof (cases "t \<le> now + d")
      case True
      then show ?thesis using Cons by (simp add: cleanupTick_def early)
    next
      case False
      then show ?thesis using ticks_gone[of ts] by (simp add: cleanupTick_def late)
    qed
  qed
  have hit: "Get t1 k c1 = ((Some v, True), [], c1)" if "t1 \<le> now + d" for t1
    using that by (simp add: Get_def c1_def entry_def MoveToFront_def Let_def)
  have miss1: "Get t2 k c1 = ((None, False), [k], c1)" if "now + d < t2" for t2
    using that by (simp add: Get_def c1_def)
  have miss0: "Get t2 k gone = ((None, False), [], gone)" for t2
    by (simp add: Get_def gone_def newLRUCache_def Let_def)
  have del1: "apply_op sz (OpDelete k) c1 = Some (Inr gone)"
    using rm by (simp add: Delete_def c1_def)
  have del0: "apply_op sz (OpDelete k) gone = Some (Inr gone)"
    by (simp add: Delete_def gone_def newLRUCache_def Let_def)
  have after1: "run sz (map OpTick ts' @ map OpDelete [k] @ map OpTick ts'') c1 = Some (Inr gone)"
    for ts' ts''
    using ticks_any[of ts'] ticks_gone[of ts'']
    by (auto simp: run_append del1 del0 simp del: apply_op.simps)
  have after0: "run sz (map OpTick ts' @ map OpDelete [] @ map OpTick ts'') gone = Some (Inr gone)"
    for ts' ts''
    using ticks_gone[of ts'] ticks_gone[of ts''] by (simp add: run_append)
  have second: "\<exists>c2 started. run sz (map OpTick ts) c1 = Some (Inr c2) \<and>
      Get t2 k c2 = ((None, False), started, c2) \<and>
      (\<forall>ts' ts''. \<exists>c3.
         run sz (map OpTick ts' @ map OpDelete started @ map OpTick ts'') c2 = Some (Inr c3) \<and>
         Len c3 = 0)" if t2: "now + d < t2" for ts t2
  proof -
    from ticks_any[of ts] show ?thesis
    proof
      assume r: "run sz (map OpTick ts) c1 = Some (Inr c1)"
      have "\<forall>ts' ts''. \<exists>c3.
         run sz (map OpTick ts' @ map OpDelete [k] @ map OpTick ts'') c1 = Some (Inr c3) \<and>
         Len c3 = 0"
        using after1 len0 by blast
      with r miss1[OF t2] show ?thesis by blast
    next
      assume r: "run sz (map OpTick ts) c1 = Some (Inr gone)"
      have "\<forall>ts' ts''. \<exists>c3.
         run sz (map OpTick ts' @ map OpDelete [] @ map OpTick ts'') gone = Some (Inr c3) \<and>
         Len c3 = 0"
        using after0 len0 by blast
      with r miss0[of t2] show ?thesis by blast
    qed
  qed
  show ?thesis
  proof (rule exI[of _ c1], intro conjI allI impI)
    show "SetWithExpiration sz now now' k (Some v) d (newLRUCache opts) = Some (Inr c1)"
      by (rule set)
    show "Len c1 = 1" by (rule len1)
    show "run sz (map OpTick ts) c1 = Some (Inr c1)" if "\<forall>t\<in>set ts. t \<le> now + d" for ts
      using that by (rule ticks_early)
    show "Get t1 k c1 = ((Some v, True), [], c1)" if "t1 \<le> now + d" for t1
      using that by (rule hit)
    show "\<exists>c2 started. run sz (map OpTick ts) c1 = Some (Inr c2) \<and>
      Get t2 k c2 = ((None, False), started, c2) \<and>
      (\<forall>ts' ts''. \<exists>c3.
         run sz (map OpTick ts' @ map OpDelete started @ map OpTick ts'') c2 = Some (Inr c3) \<and>
         Len c3 = 0)" if "now + d < t2" for ts t2
      using that by (rule second)
  qed
qed

text \<open>
  The scenario of the claim: the key \<^verbatim>\<open>"x"\<close>, 50 ms, a value of 3 bytes. A tick at 10 ms
  leaves the entry and a \<^verbatim>\<open>Get\<close> at 10 ms finds it. Without a later tick the \<^verbatim>\<open>Get\<close> at 60 ms
  starts the \<^verbatim>\<open>Delete\<close>, after which the cache is empty; after a tick at 51 ms that \<^verbatim>\<open>Get\<close>
  finds no entry, starts nothing, and the cache is empty already.
\<close>

theorem ttl_get_then_expire_witness:
  "SetWithExpiration Len_4_20_3 0 0 ''x'' (Some (Value 7)) (50 * Millisecond) (newLRUCache NewOptions)
     = Some (Inr ttl_cache) \<and>
   Len ttl_cache = 1 \<and>
   run Len_4_20_3 [OpTick (10 * Millisecond)] ttl_cache = Some (Inr ttl_cache) \<and>
   Get (10 * Millisecond) ''x'' ttl_cache = ((Some (Value 7), True), [], ttl_cache) \<and>
   Get (60 * Millisecond) ''x'' ttl_cache = ((None, False), [''x''], ttl_cache) \<and>
   (\<exists>c3. run Len_4_20_3 [OpDelete ''x''] ttl_cache = Some (Inr c3) \<and> Len c3 = 0) \<and>
   (\<exists>c2. run Len_4_20_3 [OpTick (51 * Millisecond)] ttl_cache = Some (Inr c2) \<and>
         Get (60 * Millisecond) ''x'' c2 = ((None, False), [], c2) \<and> Len c2 = 0)"
proof -
  have h1: "(0::int) < 50 * Millisecond" by (simp add: Millisecond_def)
  have h2: "(0::int) \<le> 0 + 50 * Millisecond" by (simp add: Millisecond_def)
  have h3: "\<not> (0 <s MaxBytes NewOptions \<and>
      MaxBytes NewOptions <s of_nat (length ''x'') + Len_4_20_3 (Value 7))"
    by (simp add: NewOptions_def Len_4_20_3_def word_sless_alt)
  have h4: "\<forall>t\<in>set [10 * Millisecond]. t \<le> 0 + 50 * Millisecond" by (simp add: Millisecond_def)
  have h5: "10 * Millisecond \<le> 0 + 50 * Millisecond" by (simp add: Millisecond_def)
  have h6: "0 + 50 * Millisecond < 60 * Millisecond" by (simp add: Millisecond_def)
  from ttl_get_then_expire[where sz = Len_4_20_3 and v = "Value 7" and k = "''x''" and now = 0
      and now' = 0 and d = "50 * Millisecond" and opts = NewOptions, OF h1 h2 h3]
  obtain c1 where
    set: "SetWithExpiration Len_4_20_3 0 0 ''x'' (Some (Value 7)) (50 * Millisecond)
            (newLRUCache NewOptions) = Some (Inr c1)"
    and len: "Len c1 = 1"
    and early: "\<forall>ts. (\<forall>t\<in>set ts. t \<le> 0 + 50 * Millisecond) \<longrightarrow>
            run Len_4_20_3 (map OpTick ts) c1 = Some (Inr c1)"
    and hit: "\<forall>t1. t1 \<le> 0 + 50 * Millisecond \<longrightarrow>
            Get t1 ''x'' c1 = ((Some (Value 7), True), [], c1)"
    and late: "\<forall>ts t2. 0 + 50 * Millisecond < t2 \<longrightarrow>
         (\<exists>c2 started. run Len_4_20_3 (map OpTick ts) c1 = Some (Inr c2) \<and>
            Get t2 ''x'' c2 = ((None, False), started, c2) \<and>
            (\<forall>ts' ts''. \<exists>c3.
               run Len_4_20_3 (map OpTick ts' @ map OpDelete started @ map OpTick ts'') c2
                 = Some (Inr c3) \<and>
               Len c3 = 0))"
    by (elim exE conjE)
  have "SetWithExpiration Len_4_20_3 0 0 ''x'' (Some (Value 7)) (50 * Millisecond)
      (newLRUCache NewOptions) = Some (Inr ttl_cache)"
    by (simp add: ttl_cache_def eval_defs)
  with set have c1: "c1 = ttl_cache" by simp
  note set = set[unfolded c1] and len = len[unfolded c1] and early = early[unfolded c1]
    and hit = hit[unfolded c1] and late = late[unfolded c1]
  from early[THEN spec, THEN mp, OF h4]
  have tick: "run Len_4_20_3 [OpTick (10 * Millisecond)] ttl_cache = Some (Inr ttl_cache)"
    by simp
  note get1 = hit[rule_format, OF h5]
  from late[rule_format, OF h6, of "[]"] obtain c2 started where
    a: "run Len_4_20_3 (map OpTick []) ttl_cache = Some (Inr c2)"
      "Get (60 * Millisecond) ''x'' c2 = ((None, False), started, c2)"
      "\<forall>ts' ts''. \<exists>c3.
         run Len_4_20_3 (map OpTick ts' @ map OpDelete started @ map OpTick ts'') c2
           = Some (Inr c3) \<and> Len c3 = 0"
    by blast
  from a(1) have c2: "c2 = ttl_cache" by simp
  have g: "Get (60 * Millisecond) ''x'' ttl_cache = ((None, False), [''x''], ttl_cache)"
    by (simp add: ttl_cache_def Get_def Millisecond_def)
  with a(2) c2 have started: "started = [''x'']" by simp
  from a(3)[rule_format, of "[]" "[]"] c2 started
  have del: "\<exists>c3. run Len_4_20_3 [OpDelete ''x''] ttl_cache = Some (Inr c3) \<and> Len c3 = 0"
    by simp
  from late[rule_format, OF h6, of "[51 * Millisecond]"] obtain c2' started' where
    b: "run Len_4_20_3 (map OpTick [51 * Millisecond]) ttl_cache = Some (Inr c2')"
      "Get (60 * Millisecond) ''x'' c2' = ((None, False), started', c2')"
      "\<forall>ts' ts''. \<exists>c3.
         run Len_4_20_3 (map OpTick ts' @ map OpDelete started' @ map OpTick ts'') c2'
           = Some (Inr c3) \<and> Len c3 = 0"
    by blast
  have "run Len_4_20_3 [OpTick (51 * Millisecond)] ttl_cache
      = Some (Inr (ttl_cache\<lparr>lru := [], items := [], expires := [], usedBytes := 0\<rparr>))"
    by (simp add: ttl_cache_def eval_defs)
  with b(1) have c2': "c2' = ttl_cache\<lparr>lru := [], items := [], expires := [], usedBytes := 0\<rparr>"
    by simp
  have "Get (60 * Millisecond) ''x'' c2' = ((None, False), [], c2')"
    by (simp add: c2' Get_def)
  moreover have "Len c2' = 0" by (simp add: c2' Len_def)
  ultimately have sweep: "\<exists>c2. run Len_4_20_3 [OpTick (51 * Millisecond)] ttl_cache = Some (Inr c2) \<and>
         Get (60 * Millisecond) ''x'' c2 = ((None, False), [], c2) \<and> Len c2 = 0"
    using b(1) by auto
  from set len tick get1 g del sweep show ?thesis by blast
qed

text \<open>
  The claim as it was stated has \<open>Len() = 0\<close> as soon as the second \<^verbatim>\<open>Get\<close> returns. With
  no cleanup tick in the 60 ms (the interval of \<open>NewOptions\<close> is a minute) and the
  goroutine not yet run, the entry is still there.
\<close>

theorem ttl_len_counterexample:
  "SetWithExpiration Len_4_20_3 0 0 ''x'' (Some (Value 7)) (50 * Millisecond) (newLRUCache NewOptions)
     = Some (Inr ttl_cache) \<and>
   fst (Get (60 * Millisecond) ''x'' ttl_cache) = (None, False) \<and>
   Len (snd (snd (Get (60 * Millisecond) ''x'' ttl_cache))) \<noteq> 0"
  by (simp add: ttl_cache_def eval_defs)

subsection \<open>C6: Clear\<close>

text \<open>
  Claim C6: after \<^verbatim>\<open>Clear\<close> the cache has length 0 and 0 bytes in use, for every cache.
  The callback, when one is configured, is invoked once for every binding of the Key
  Index as it was before the call, with the entry the binding points at; where the cache
  satisfies \<open>cache_inv\<close>, as every cache built by the operations does (\<open>run_cache_inv\<close>),
  that is exactly once for every key of the Key Index and for no other key.
\<close>

theorem Clear_postcondition:
  "Len (Clear c) = 0 \<and> UsedBytes (Clear c) = 0 \<and>
   lru (Clear c) = [] \<and> items (Clear c) = [] \<and> expires (Clear c) = [] \<and>
   (\<exists>calls. evicted (Clear c) = evicted c @ calls \<and>
      length calls = (if onEvicted c then length (items c) else 0) \<and>
      (cache_inv sz c \<longrightarrow>
         (\<forall>k. count_list (map fst calls) k =
              (if onEvicted c \<and> map_of (items c) k \<noteq> None then 1 else 0))))"
proof -
  define calls where "calls = (if onEvicted c
     then map (\<lambda>(k, elem). (entry_key elem, entry_value elem)) (items c) else [])"
  have e: "evicted (Clear c) = evicted c @ calls" by (simp add: Clear_def calls_def)
  have n: "length calls = (if onEvicted c then length (items c) else 0)"
    by (simp add: calls_def)
  have once: "count_list (map fst calls) k =
      (if onEvicted c \<and> map_of (items c) k \<noteq> None then 1 else 0)" if inv: "cache_inv sz c" for k
  proof (cases "onEvicted c")
    case False
    then show ?thesis by (simp add: calls_def)
  next
    case True
    have di: "distinct (map fst (items c))" by (rule cache_inv_items_distinct[OF inv])
    have "entry_key (snd p) = fst p" if "p \<in> set (items c)" for p
      using cache_inv_items[OF inv, of "fst p" "snd p"] that di by simp
    then have "map fst calls = map fst (items c)"
      using True by (auto simp: calls_def split: prod.splits)
    moreover have "count_list (map fst (items c)) k =
        (if k \<in> set (map fst (items c)) then 1 else 0)"
      using di distinct_count_atmost_1[of "map fst (items c)"] by (simp flip: count_mset)
    moreover have "k \<in> set (map fst (items c)) \<longleftrightarrow> map_of (items c) k \<noteq> None"
      by (simp add: map_of_eq_None_iff)
    ultimately show ?thesis using True by simp
  qed
  show ?thesis using e n once by (auto simp: Len_def UsedBytes_def Clear_def)
qed

theorem Clear_postcondition_witness:
  "cache_inv Len_4_20_3 two_entries \<and> onEvicted two_entries \<and>
   Len (Clear two_entries) = 0 \<and> UsedBytes (Clear two_entries) = 0 \<and>
   count_list (map fst (evicted (Clear two_entries))) ''a'' = 1 \<and>
   count_list (map fst (evicted (Clear two_entries))) ''b'' = 1 \<and>
   count_list (map fst (evicted (Clear two_entries))) ''c'' = 0"
proof -
  have inv: "cache_inv Len_4_20_3 two_entries"
    by (rule cache_invI)
      (auto simp: two_entries_def accounted_def entry_size_def Len_4_20_3_def split: if_splits)
  have on: "onEvicted two_entries" and none: "evicted two_entries = []"
    by (simp_all add: two_entries_def)
  have keys: "map_of (items two_entries) ''a'' \<noteq> None" "map_of (items two_entries) ''b'' \<noteq> None"
    "map_of (items two_entries) ''c'' = None"
    by (simp_all add: two_entries_def)
  from Clear_postcondition[of two_entries Len_4_20_3] inv obtain calls where
    c: "Len (Clear two_entries) = 0" "UsedBytes (Clear two_entries) = 0"
      "evicted (Clear two_entries) = evicted two_entries @ calls"
      "\<forall>k. count_list (map fst calls) k =
           (if onEvicted two_entries \<and> map_of (items two_entries) k \<noteq> None then 1 else 0)"
    by blast
  from c(3) none have "evicted (Clear two_entries) = calls" by simp
  with c(4) on keys have "count_list (map fst (evicted (Clear two_entries))) ''a'' = 1"
    "count_list (map fst (evicted (Clear two_entries))) ''b'' = 1"
    "count_list (map fst (evicted (Clear two_entries))) ''c'' = 0"
    by simp_all
  with inv on c(1,2) show ?thesis by simp
qed

subsection \<open>C7: Delete of an absent key\<close>

text \<open>
  Claim C7: for every cache and every key that the Key Index does not hold, \<^verbatim>\<open>Delete\<close>
  returns false and the cache is what it was: the three indexes, \<open>usedBytes\<close> and the
  record of callback invocations.
\<close>

theorem Delete_absent:
  "map_of (items c) k = None \<Longrightarrow> Delete sz k c = (False, c)"
  by (simp add: Delete_def)

theorem Delete_absent_witness:
  "map_of (items two_entries) ''c'' = None \<and>
   Delete Len_4_20_3 ''c'' two_entries = (False, two_entries)"
proof -
  have h: "map_of (items two_entries) ''c'' = None" by (simp add: two_entries_def)
  from Delete_absent[OF h] h show ?thesis by simp
qed

subsection \<open>C8: the factory\<close>

text \<open>
  Claim C8 says that the factory, called with the LRU tag, returns a usable engine for
  every configuration. \<^verbatim>\<open>NewStore\<close> returns \<^verbatim>\<open>nil\<close> on each branch of its switch; the call
  of \<^verbatim>\<open>newLRUCache\<close> is commented out.
\<close>

theorem NewStore_LRU_nil:
  "NewStore LRU opts = None"
  by (simp add: NewStore_def)

subsection \<open>C9: GetWithExpiration of an expired key\<close>

text \<open>
  Claim C9: for a key of the Key Index whose expiry instant is in the past,
  \<^verbatim>\<open>GetWithExpiration\<close> returns \<open>(nil, 0, false)\<close> and the cache is what it was (the three
  indexes, and with them \<open>Len\<close>; \<open>usedBytes\<close>; the record of callback invocations), whereas
  \<^verbatim>\<open>Get\<close> on the same cache starts a goroutine for \<^verbatim>\<open>Delete\<close> of the key.
\<close>

theorem GetWithExpiration_expired:
  assumes "map_of (items c) k = Some elem" "map_of (expires c) k = Some expire" "expire < now"
  shows "GetWithExpiration now k c = ((None, 0, False), c) \<and>
         Get now k c = ((None, False), [k], c)"
  using assms by (simp add: GetWithExpiration_def Get_def)

theorem GetWithExpiration_expired_witness:
  "map_of (items two_entries) ''a'' = Some \<lparr>entry_key = ''a'', entry_value = Value 1\<rparr> \<and>
   map_of (expires two_entries) ''a'' = Some 100 \<and> (100::int) < 101 \<and>
   GetWithExpiration 101 ''a'' two_entries = ((None, 0, False), two_entries) \<and>
   Get 101 ''a'' two_entries = ((None, False), [''a''], two_entries)"
proof -
  have h1: "map_of (items two_entries) ''a'' = Some \<lparr>entry_key = ''a'', entry_value = Value 1\<rparr>"
    by (simp add: two_entries_def)
  have h2: "map_of (expires two_entries) ''a'' = Some 100" by (simp add: two_entries_def)
  have h3: "(100::int) < 101" by simp
  from GetWithExpiration_expired[OF h1 h2 h3] h1 h2 show ?thesis by simp
qed

subsection \<open>C10: UpdateExpiration with a duration that is not positive\<close>

text \<open>
  Claim C10: for a key of the Key Index and \<open>d \<le> 0\<close>, \<^verbatim>\<open>UpdateExpiration\<close> returns true,
  the key has no entry in the Expiration Index afterwards, and nothing else changes: the
  Recency Index, the Key Index (and so the value), \<open>usedBytes\<close>, the record of callback
  invocations and the expiry instants of the other keys. For a key that the Key Index
  does not hold it returns false and the cache is what it was.
\<close>

theorem UpdateExpiration_nonpositive:
  "(map_of (items c) k \<noteq> None \<longrightarrow> d \<le> 0 \<longrightarrow>
      UpdateExpiration now k d c = (True, c\<lparr>expires := AList.delete k (expires c)\<rparr>) \<and>
      map_of (expires (snd (UpdateExpiration now k d c))) k = None \<and>
      (\<forall>k'. k' \<noteq> k \<longrightarrow>
         map_of (expires (snd (UpdateExpiration now k d c))) k' = map_of (expires c) k') \<and>
      lru (snd (UpdateExpiration now k d c)) = lru c \<and>
      items (snd (UpdateExpiration now k d c)) = items c \<and>
      usedBytes (snd (UpdateExpiration now k d c)) = usedBytes c \<and>
      evicted (snd (UpdateExpiration now k d c)) = evicted c) \<and>
   (map_of (items c) k = None \<longrightarrow> UpdateExpiration now k d c = (False, c))"
  by (simp add: UpdateExpiration_def delete_conv')

theorem UpdateExpiration_nonpositive_witness:
  "map_of (items two_entries) ''a'' \<noteq> None \<and> (0::int) \<le> 0 \<and>
   UpdateExpiration 5 ''a'' 0 two_entries = (True, two_entries\<lparr>expires := []\<rparr>) \<and>
   map_of (items two_entries) ''c'' = None \<and>
   UpdateExpiration 5 ''c'' 0 two_entries = (False, two_entries)"
proof -
  have h1: "map_of (items two_entries) ''a'' \<noteq> None" by (simp add: two_entries_def)
  have h2: "map_of (items two_entries) ''c'' = None" by (simp add: two_entries_def)
  have e: "AList.delete ''a'' (expires two_entries) = []" by (simp add: two_entries_def)
  from UpdateExpiration_nonpositive[of two_entries "''a''" 0 5]
    UpdateExpiration_nonpositive[of two_entries "''c''" 0 5] h1 h2 e
  show ?thesis by simp
qed

end
